theory Spec2Isabelle
  imports Main
begin

section \<open>Values, outcomes and time\<close>

text \<open>
  Keys are strings (\<^verbatim>\<open>getOrFetch(key: string)\<close>). The value type of the cache is a type
  parameter of the class; the model fixes it to the JavaScript values a fetcher can resolve
  to, because \<^verbatim>\<open>getOrFetch\<close> tests the cached value with \<^verbatim>\<open>if (value)\<close>. Numbers are
  integers, with \<open>JNaN\<close> as a value of its own; objects are references.
  \<open>Date.now()\<close> is a parameter of every operation that reads the clock.
\<close>

type_synonym key = string
type_synonym timestamp = nat

datatype jsvalue =
    JUndefined
  | JNull
  | JBool bool
  | JNum int
  | JNaN
  | JStr string
  | JObj nat

text \<open>The truthiness of a value, as the condition of an \<^verbatim>\<open>if\<close> reads it.\<close>

fun truthy :: "jsvalue \<Rightarrow> bool" where
  "truthy JUndefined = False"
| "truthy JNull = False"
| "truthy (JBool b) = b"
| "truthy (JNum n) = (n \<noteq> 0)"
| "truthy JNaN = False"
| "truthy (JStr s) = (s \<noteq> [])"
| "truthy (JObj r) = True"

text \<open>How a promise settles: with a value, or with the error the fetcher produced.\<close>

datatype outcome = Resolved jsvalue | Rejected string

datatype usage_error = InvalidArgument

section \<open>The bounded ordered store (package fifo-ttl-cache)\<close>

text \<open>
  The class \<^verbatim>\<open>FIFOCache\<close> of the dependency \<^verbatim>\<open>fifo-ttl-cache\<close> is imported by the source
  and is not part of it. Every definition of this section is modelled from the spec, its
  sections 3 and 4.1.
\<close>

text \<open>
  Modelled from the spec: the entry of the missing class \<^verbatim>\<open>FIFOCache\<close>, a key, its value
  and the time of its insertion.
\<close>

record entry =
  entryKey :: key
  entryValue :: jsvalue
  insertedAt :: timestamp

text \<open>
  Modelled from the spec: the state of the missing class \<^verbatim>\<open>FIFOCache\<close>, an
  insertion-ordered collection of entries, oldest first, with a capacity and one
  time-to-live shared by all entries.
\<close>

record FIFOCache =
  entries :: "entry list"
  capacity :: nat
  ttlMs :: nat

text \<open>Modelled from the spec: the entry of a key in the missing store, expired or not.\<close>

definition lookup :: "FIFOCache \<Rightarrow> key \<Rightarrow> entry option" where
  "lookup s k = find (\<lambda>e. entryKey e = k) (entries s)"

text \<open>
  Modelled from the spec: the missing constructor of \<^verbatim>\<open>FIFOCache\<close> takes a positive
  capacity and a positive time-to-live; anything else is a usage error.
\<close>

definition FIFOCache_new :: "nat \<Rightarrow> nat \<Rightarrow> usage_error + FIFOCache" where
  "FIFOCache_new cap ttl =
     (if cap < 1 \<or> ttl < 1 then Inl InvalidArgument
      else Inr \<lparr>entries = [], capacity = cap, ttlMs = ttl\<rparr>)"

text \<open>
  Modelled from the spec: the missing \<^verbatim>\<open>FIFOCache.get\<close>. An entry inserted at time \<open>T\<close> is
  present for reads before \<open>T + ttlMs\<close> and absent from \<open>T + ttlMs\<close> on; a read does not
  delete. The store is returned with the result, so that what a read does to it is part
  of the model.
\<close>

definition FIFOCache_get :: "FIFOCache \<Rightarrow> timestamp \<Rightarrow> key \<Rightarrow> jsvalue option \<times> FIFOCache" where
  "FIFOCache_get s now k =
     (case lookup s k of
        None \<Rightarrow> (None, s)
      | Some e \<Rightarrow> if now < insertedAt e + ttlMs s then (Some (entryValue e), s) else (None, s))"

text \<open>
  Modelled from the spec: the missing \<^verbatim>\<open>FIFOCache.has\<close>, the same presence check as \<open>get\<close>,
  without the value.
\<close>

definition FIFOCache_has :: "FIFOCache \<Rightarrow> timestamp \<Rightarrow> key \<Rightarrow> bool \<times> FIFOCache" where
  "FIFOCache_has s now k =
     (case lookup s k of
        None \<Rightarrow> (False, s)
      | Some e \<Rightarrow> (now < insertedAt e + ttlMs s, s))"

text \<open>
  Modelled from the spec: the missing \<^verbatim>\<open>FIFOCache.set\<close> inserts or replaces. Replacing a
  key deletes and reinserts; a new key at full capacity evicts the single oldest entry
  first.
\<close>

definition FIFOCache_set :: "FIFOCache \<Rightarrow> timestamp \<Rightarrow> key \<Rightarrow> jsvalue \<Rightarrow> FIFOCache" where
  "FIFOCache_set s now k v =
     (let e = \<lparr>entryKey = k, entryValue = v, insertedAt = now\<rparr> in
      if lookup s k \<noteq> None
      then s\<lparr>entries := filter (\<lambda>x. entryKey x \<noteq> k) (entries s) @ [e]\<rparr>
      else if length (entries s) = capacity s
      then s\<lparr>entries := tl (entries s) @ [e]\<rparr>
      else s\<lparr>entries := entries s @ [e]\<rparr>)"

text \<open>
  Modelled from the spec: the missing \<^verbatim>\<open>FIFOCache.delete\<close> removes the entry if the key
  exists, expired or not, and returns whether a removal occurred.
\<close>

definition FIFOCache_delete :: "FIFOCache \<Rightarrow> key \<Rightarrow> bool \<times> FIFOCache" where
  "FIFOCache_delete s k =
     (case lookup s k of
        None \<Rightarrow> (False, s)
      | Some e \<Rightarrow> (True, s\<lparr>entries := filter (\<lambda>x. entryKey x \<noteq> k) (entries s)\<rparr>))"

text \<open>Modelled from the spec: the missing \<^verbatim>\<open>FIFOCache.clear\<close> removes all entries.\<close>

definition FIFOCache_clear :: "FIFOCache \<Rightarrow> FIFOCache" where
  "FIFOCache_clear s = s\<lparr>entries := []\<rparr>"

text \<open>
  Modelled from the spec: the missing getters \<^verbatim>\<open>size\<close> and \<^verbatim>\<open>isEmpty\<close> of \<^verbatim>\<open>FIFOCache\<close>, on
  the raw entry count, expired entries included.
\<close>

definition FIFOCache_size :: "FIFOCache \<Rightarrow> nat" where
  "FIFOCache_size s = length (entries s)"

definition FIFOCache_isEmpty :: "FIFOCache \<Rightarrow> bool" where
  "FIFOCache_isEmpty s = (length (entries s) = 0)"

section \<open>The keyed exclusion coordinator (package zero-overhead-keyed-promise-lock)\<close>

text \<open>
  The class \<^verbatim>\<open>ZeroOverheadKeyedLock\<close> of the dependency \<^verbatim>\<open>zero-overhead-keyed-promise-lock\<close>
  is imported by the source and is not part of it. Every definition of this section is
  modelled from the spec, its sections 3 and 4.2.
\<close>

text \<open>
  The two places where \<^verbatim>\<open>getOrFetch\<close> suspends on a task of the lock: in the call that
  registered the execution (line 129 of the class) and in a call that joined it (line
  127). The number is the id of the call.
\<close>

datatype continuation = Registrant nat | Joiner nat

text \<open>
  Modelled from the spec: the in-flight task of the missing class
  \<^verbatim>\<open>ZeroOverheadKeyedLock\<close>, the promise of one producer invocation for one key. The
  continuations suspended on it (\<^verbatim>\<open>await\<close>) resume in the order they suspended.
\<close>

record task =
  taskId :: nat
  taskKey :: key
  awaitedBy :: "continuation list"

text \<open>
  Modelled from the spec: the state of the missing class \<^verbatim>\<open>ZeroOverheadKeyedLock\<close>. The
  active set holds one task per key. A drain is the list of the task ids of its snapshot
  that have not settled yet; its id is its index.
\<close>

record ZeroOverheadKeyedLock =
  activeTasks :: "task list"
  nextTaskId :: nat
  drains :: "nat list list"

text \<open>Modelled from the spec: the missing lock starts with no task and no drain.\<close>

definition ZeroOverheadKeyedLock_new :: ZeroOverheadKeyedLock where
  "ZeroOverheadKeyedLock_new = \<lparr>activeTasks = [], nextTaskId = 0, drains = []\<rparr>"

text \<open>
  Modelled from the spec: the missing \<^verbatim>\<open>getCurrentExecution\<close> returns the task in flight
  for the key, if there is one, and starts nothing.
\<close>

definition getCurrentExecution :: "ZeroOverheadKeyedLock \<Rightarrow> key \<Rightarrow> task option" where
  "getCurrentExecution lk k = find (\<lambda>t. taskKey t = k) (activeTasks lk)"

text \<open>
  Modelled from the spec: with no task in flight for the key, the missing
  \<^verbatim>\<open>executeExclusive\<close> registers one, backed by one invocation of the producer. The spec
  leaves the call open for a key that is already active: the model returns \<open>None\<close> there.
\<close>

definition executeExclusive :: "ZeroOverheadKeyedLock \<Rightarrow> key \<Rightarrow> ZeroOverheadKeyedLock option" where
  "executeExclusive lk k =
     (case getCurrentExecution lk k of
        Some t \<Rightarrow> None
      | None \<Rightarrow>
          Some (lk\<lparr>activeTasks :=
                      activeTasks lk @ [\<lparr>taskId = nextTaskId lk, taskKey = k, awaitedBy = []\<rparr>],
                    nextTaskId := Suc (nextTaskId lk)\<rparr>))"

text \<open>
  Modelled from the spec: \<^verbatim>\<open>await\<close> on the promise the missing lock holds for a key. The
  continuation joins the end of the task's queue.
\<close>

definition awaitExecution :: "ZeroOverheadKeyedLock \<Rightarrow> key \<Rightarrow> continuation \<Rightarrow> ZeroOverheadKeyedLock" where
  "awaitExecution lk k w =
     lk\<lparr>activeTasks :=
          map (\<lambda>t. if taskKey t = k then t\<lparr>awaitedBy := awaitedBy t @ [w]\<rparr> else t)
            (activeTasks lk)\<rparr>"

text \<open>Modelled from the spec: the missing getter \<^verbatim>\<open>activeKeysCount\<close>, the size of the active set.\<close>

definition activeKeysCount :: "ZeroOverheadKeyedLock \<Rightarrow> nat" where
  "activeKeysCount lk = length (activeTasks lk)"

text \<open>
  Modelled from the spec: the missing \<^verbatim>\<open>waitForAllExistingTasksToComplete\<close> takes the
  snapshot of the tasks active at the call and waits for those only. The result is the
  lock with the new drain, whose id is its index.
\<close>

definition waitForAllExistingTasksToComplete :: "ZeroOverheadKeyedLock \<Rightarrow> ZeroOverheadKeyedLock" where
  "waitForAllExistingTasksToComplete lk =
     lk\<lparr>drains := drains lk @ [map taskId (activeTasks lk)]\<rparr>"

text \<open>
  Modelled from the spec: what the missing lock does when the producer of a key settles.
  With either outcome, the task leaves the active set and every drain that waits for it.
  The task is returned for its continuations to be resumed.
\<close>

definition settleTask :: "ZeroOverheadKeyedLock \<Rightarrow> key \<Rightarrow> (task \<times> ZeroOverheadKeyedLock) option" where
  "settleTask lk k =
     (case getCurrentExecution lk k of
        None \<Rightarrow> None
      | Some t \<Rightarrow>
          Some (t, lk\<lparr>activeTasks := filter (\<lambda>x. taskKey x \<noteq> k) (activeTasks lk),
                      drains := map (filter (\<lambda>i. i \<noteq> taskId t)) (drains lk)\<rparr>))"

text \<open>
  Modelled from the spec: the promise that the missing \<^verbatim>\<open>waitForAllExistingTasksToComplete\<close>
  returns, by the id of the drain: not issued, pending, resolved or rejected. It is
  resolved once no task of its snapshot is left, and no step of the model rejects it.
\<close>

datatype drain_state = DrainUnknown | DrainPending | DrainResolved | DrainRejected string

definition drainState :: "ZeroOverheadKeyedLock \<Rightarrow> nat \<Rightarrow> drain_state" where
  "drainState lk d =
     (if length (drains lk) \<le> d then DrainUnknown
      else if drains lk ! d = [] then DrainResolved else DrainPending)"

section \<open>The auto-fetch orchestrator (class AutoFetchFIFOCache)\<close>

text \<open>
  The class has the private fields \<^verbatim>\<open>_lock\<close>, \<^verbatim>\<open>_fifoCache\<close> and \<^verbatim>\<open>_fetchValue\<close>. The
  fetcher is the environment: the model records each of its invocations in \<open>fetchLog\<close>,
  and its result arrives as a later event. Three more fields record what is observed
  from outside: the store writes made by \<^verbatim>\<open>getOrFetch\<close>, with the call that made them;
  the \<^verbatim>\<open>getOrFetch\<close> promises that have settled; and the id of the next call.
\<close>

record AutoFetchFIFOCache =
  fifoCache :: FIFOCache
  lock :: ZeroOverheadKeyedLock
  fetchLog :: "key list"
  writeLog :: "(nat \<times> key \<times> jsvalue) list"
  settled :: "nat \<Rightarrow> outcome option"
  nextCallId :: nat

definition AutoFetchFIFOCache_new :: "nat \<Rightarrow> nat \<Rightarrow> usage_error + AutoFetchFIFOCache" where
  "AutoFetchFIFOCache_new cap ttl =
     (case FIFOCache_new cap ttl of
        Inl e \<Rightarrow> Inl e
      | Inr s \<Rightarrow>
          Inr \<lparr>fifoCache = s, lock = ZeroOverheadKeyedLock_new, fetchLog = [], writeLog = [],
               settled = (\<lambda>cid. None), nextCallId = 0\<rparr>)"

definition size_cache :: "AutoFetchFIFOCache \<Rightarrow> nat" where
  "size_cache c = FIFOCache_size (fifoCache c)"

definition isEmpty :: "AutoFetchFIFOCache \<Rightarrow> bool" where
  "isEmpty c = FIFOCache_isEmpty (fifoCache c)"

definition ongoingFetchAttemptsCount :: "AutoFetchFIFOCache \<Rightarrow> nat" where
  "ongoingFetchAttemptsCount c = activeKeysCount (lock c)"

text \<open>
  \<^verbatim>\<open>getOrFetch\<close>, from the call to its first \<^verbatim>\<open>await\<close> (or to its \<^verbatim>\<open>return\<close> on a hit).
  The call is given the id \<open>nextCallId c\<close>. The store's \<open>get\<close> returns \<^verbatim>\<open>undefined\<close> for
  an absent key. On a miss with no fetch in flight, the producer
  \<^verbatim>\<open>() => this._fetchValue(key)\<close> runs once inside \<open>executeExclusive\<close>.
\<close>

definition getOrFetch :: "AutoFetchFIFOCache \<Rightarrow> timestamp \<Rightarrow> key \<Rightarrow> AutoFetchFIFOCache" where
  "getOrFetch c now k =
     (let cid = nextCallId c;
          (r, s) = FIFOCache_get (fifoCache c) now k;
          val = (case r of None \<Rightarrow> JUndefined | Some v \<Rightarrow> v);
          c1 = c\<lparr>fifoCache := s, nextCallId := Suc cid\<rparr>
      in if truthy val then c1\<lparr>settled := (settled c1)(cid \<mapsto> Resolved val)\<rparr>
         else (case getCurrentExecution (lock c1) k of
                 Some ongoingFetch \<Rightarrow> c1\<lparr>lock := awaitExecution (lock c1) k (Joiner cid)\<rparr>
               | None \<Rightarrow>
                   (case executeExclusive (lock c1) k of
                      None \<Rightarrow> c1
                    | Some lk \<Rightarrow>
                        c1\<lparr>lock := awaitExecution lk k (Registrant cid),
                           fetchLog := fetchLog c1 @ [k]\<rparr>)))"

text \<open>
  The rest of \<^verbatim>\<open>getOrFetch\<close>, after its \<^verbatim>\<open>await\<close>. The call that registered the
  execution writes the value to the store and returns it; a call that joined returns it.
  A rejection is thrown by the \<^verbatim>\<open>await\<close>, so nothing after it runs.
\<close>

fun resume :: "timestamp \<Rightarrow> key \<Rightarrow> outcome \<Rightarrow> AutoFetchFIFOCache \<Rightarrow> continuation \<Rightarrow> AutoFetchFIFOCache" where
  "resume now k (Resolved v) c (Registrant cid) =
     c\<lparr>fifoCache := FIFOCache_set (fifoCache c) now k v,
       writeLog := writeLog c @ [(cid, k, v)],
       settled := (settled c)(cid \<mapsto> Resolved v)\<rparr>"
| "resume now k (Rejected e) c (Registrant cid) = c\<lparr>settled := (settled c)(cid \<mapsto> Rejected e)\<rparr>"
| "resume now k out c (Joiner cid) = c\<lparr>settled := (settled c)(cid \<mapsto> out)\<rparr>"

text \<open>
  The fetch in flight for a key settles: the lock drops the task, then the suspended
  calls resume in order. With no fetch in flight for the key nothing happens.
\<close>

definition fetchSettled :: "AutoFetchFIFOCache \<Rightarrow> timestamp \<Rightarrow> key \<Rightarrow> outcome \<Rightarrow> AutoFetchFIFOCache" where
  "fetchSettled c now k out =
     (case settleTask (lock c) k of
        None \<Rightarrow> c
      | Some (t, lk) \<Rightarrow> foldl (resume now k out) (c\<lparr>lock := lk\<rparr>) (awaitedBy t))"

definition has :: "AutoFetchFIFOCache \<Rightarrow> timestamp \<Rightarrow> key \<Rightarrow> bool \<times> AutoFetchFIFOCache" where
  "has c now k = (let (b, s) = FIFOCache_has (fifoCache c) now k in (b, c\<lparr>fifoCache := s\<rparr>))"

definition delete :: "AutoFetchFIFOCache \<Rightarrow> key \<Rightarrow> bool \<times> AutoFetchFIFOCache" where
  "delete c k = (let (b, s) = FIFOCache_delete (fifoCache c) k in (b, c\<lparr>fifoCache := s\<rparr>))"

definition clear :: "AutoFetchFIFOCache \<Rightarrow> AutoFetchFIFOCache" where
  "clear c = c\<lparr>fifoCache := FIFOCache_clear (fifoCache c)\<rparr>"

definition waitForActiveFetchesToComplete :: "AutoFetchFIFOCache \<Rightarrow> AutoFetchFIFOCache" where
  "waitForActiveFetchesToComplete c = c\<lparr>lock := waitForAllExistingTasksToComplete (lock c)\<rparr>"

section \<open>Runs\<close>

text \<open>
  One thread runs the calls; a call runs until it suspends, and a settlement resumes the
  calls suspended on it. A run is a list of such steps, each with the clock it reads.
  The settlement of a fetch is one step: the lock drops the task and the suspended calls
  resume, with no other step between them.
\<close>

datatype event =
    CallGetOrFetch key timestamp
  | FetchSettled key outcome timestamp
  | CallHas key timestamp
  | CallDelete key
  | CallClear
  | CallWaitForActiveFetches

fun step :: "AutoFetchFIFOCache \<Rightarrow> event \<Rightarrow> AutoFetchFIFOCache" where
  "step c (CallGetOrFetch k now) = getOrFetch c now k"
| "step c (FetchSettled k out now) = fetchSettled c now k out"
| "step c (CallHas k now) = snd (has c now k)"
| "step c (CallDelete k) = snd (delete c k)"
| "step c CallClear = clear c"
| "step c CallWaitForActiveFetches = waitForActiveFetchesToComplete c"

definition run :: "AutoFetchFIFOCache \<Rightarrow> event list \<Rightarrow> AutoFetchFIFOCache" where
  "run c evs = foldl step c evs"

text \<open>The keys with an entry in the store, oldest first, expired entries included.\<close>

definition storedKeys :: "AutoFetchFIFOCache \<Rightarrow> key list" where
  "storedKeys c = map entryKey (entries (fifoCache c))"

text \<open>
  The steps that only read the store: a \<^verbatim>\<open>has\<close> call, and a \<^verbatim>\<open>getOrFetch\<close> call up to
  its return or its suspension.
\<close>

fun isRead :: "event \<Rightarrow> bool" where
  "isRead (CallGetOrFetch k now) = True"
| "isRead (CallHas k now) = True"
| "isRead ev = False"

text \<open>
  The value \<^verbatim>\<open>getOrFetch\<close> reads from the store at its first line: the cached value, or
  \<^verbatim>\<open>undefined\<close> when the store reports the key absent.
\<close>

definition cachedValue :: "AutoFetchFIFOCache \<Rightarrow> timestamp \<Rightarrow> key \<Rightarrow> jsvalue" where
  "cachedValue c now k =
     (case fst (FIFOCache_get (fifoCache c) now k) of None \<Rightarrow> JUndefined | Some v \<Rightarrow> v)"

text \<open>The call a continuation belongs to, and whether it joined a fetch in flight.\<close>

fun callOf :: "continuation \<Rightarrow> nat" where
  "callOf (Registrant cid) = cid"
| "callOf (Joiner cid) = cid"

fun isJoiner :: "continuation \<Rightarrow> bool" where
  "isJoiner (Joiner cid) = True"
| "isJoiner (Registrant cid) = False"

text \<open>
  The states that runs go through. In the store the keys are distinct and the size is
  within the capacity, which is positive. In the lock every task is awaited first by the
  call that registered it and then by calls that joined it; keys and ids of the tasks
  are distinct, the ids are below the next id, and a drain waits for active tasks only.
\<close>

fun registrantThenJoiners :: "continuation list \<Rightarrow> bool" where
  "registrantThenJoiners (Registrant r # ws) = list_all isJoiner ws"
| "registrantThenJoiners ws = False"

definition storeInv :: "FIFOCache \<Rightarrow> bool" where
  "storeInv s \<longleftrightarrow>
     distinct (map entryKey (entries s)) \<and> length (entries s) \<le> capacity s \<and> 1 \<le> capacity s"

definition lockInv :: "ZeroOverheadKeyedLock \<Rightarrow> bool" where
  "lockInv lk \<longleftrightarrow>
     list_all (\<lambda>t. registrantThenJoiners (awaitedBy t)) (activeTasks lk) \<and>
     distinct (map taskKey (activeTasks lk)) \<and>
     distinct (map taskId (activeTasks lk)) \<and>
     list_all (\<lambda>t. taskId t < nextTaskId lk) (activeTasks lk) \<and>
     list_all (\<lambda>d. list_all (\<lambda>i. i \<in> set (map taskId (activeTasks lk))) d) (drains lk)"

definition wellFormed :: "AutoFetchFIFOCache \<Rightarrow> bool" where
  "wellFormed c \<longleftrightarrow> storeInv (fifoCache c) \<and> lockInv (lock c)"

text \<open>
  One insertion of a scenario: a call of \<^verbatim>\<open>getOrFetch\<close> for a key, the reads made while
  its fetch is in flight, the fetch resolving to a value, and the reads that follow
  before the next insertion.
\<close>

record insertion =
  insKey :: key
  insValue :: jsvalue
  callTime :: timestamp
  readsDuring :: "event list"
  settleTime :: timestamp
  readsAfter :: "event list"

primrec insertions :: "insertion list \<Rightarrow> event list" where
  "insertions [] = []"
| "insertions (i # rest) =
     CallGetOrFetch (insKey i) (callTime i) # readsDuring i @
     FetchSettled (insKey i) (Resolved (insValue i)) (settleTime i) #
     readsAfter i @ insertions rest"

text \<open>The entry that \<open>set\<close> creates when the fetch of an insertion resolves.\<close>

definition insertedEntry :: "insertion \<Rightarrow> entry" where
  "insertedEntry i = \<lparr>entryKey = insKey i, entryValue = insValue i, insertedAt = settleTime i\<rparr>"

text \<open>The tasks in flight, by id and key.\<close>

definition activeIdKeys :: "AutoFetchFIFOCache \<Rightarrow> (nat \<times> key) list" where
  "activeIdKeys c = map (\<lambda>t. (taskId t, taskKey t)) (activeTasks (lock c))"

text \<open>Whether a step is the settlement of the fetch of a key, with either outcome.\<close>

fun settles :: "key \<Rightarrow> event \<Rightarrow> bool" where
  "settles k (FetchSettled k' out now) = (k' = k)"
| "settles k ev = False"

text \<open>
  The ids of the calls of \<^verbatim>\<open>getOrFetch\<close> for a key in a list of steps, when the next call
  has the id \<open>n\<close>; and the steps that are calls of \<^verbatim>\<open>getOrFetch\<close>.
\<close>

fun callsFor :: "key \<Rightarrow> nat \<Rightarrow> event list \<Rightarrow> nat list" where
  "callsFor k n [] = []"
| "callsFor k n (CallGetOrFetch k' now # evs) =
     (if k' = k then n # callsFor k (Suc n) evs else callsFor k (Suc n) evs)"
| "callsFor k n (ev # evs) = callsFor k n evs"

fun isCall :: "event \<Rightarrow> bool" where
  "isCall (CallGetOrFetch k now) = True"
| "isCall ev = False"

section \<open>Example states\<close>

text \<open>A new cache of capacity 2 whose entries live for 1000 ms.\<close>

definition exampleCache :: AutoFetchFIFOCache where
  "exampleCache =
     \<lparr>fifoCache = \<lparr>entries = [], capacity = 2, ttlMs = 1000\<rparr>,
      lock = \<lparr>activeTasks = [], nextTaskId = 0, drains = []\<rparr>,
      fetchLog = [], writeLog = [], settled = (\<lambda>cid. None), nextCallId = 0\<rparr>"

text \<open>The example cache after one fetch of the key \<open>k\<close> has resolved to 5 at time 0.\<close>

definition staleCache :: AutoFetchFIFOCache where
  "staleCache = run exampleCache [CallGetOrFetch ''k'' 0, FetchSettled ''k'' (Resolved (JNum 5)) 0]"

text \<open>
  The example cache after one fetch of \<open>k\<close> has resolved to the number 0 at time 0; then
  with a second call of \<^verbatim>\<open>getOrFetch\<close> for \<open>k\<close> at time 1; then with the fetch of that call
  rejected at time 2.
\<close>

definition falsyCache :: AutoFetchFIFOCache where
  "falsyCache = run exampleCache [CallGetOrFetch ''k'' 0, FetchSettled ''k'' (Resolved (JNum 0)) 0]"

definition refetchingCache :: AutoFetchFIFOCache where
  "refetchingCache = getOrFetch falsyCache 1 ''k''"

definition rejectedRefetchCache :: AutoFetchFIFOCache where
  "rejectedRefetchCache = fetchSettled refetchingCache 2 ''k'' (Rejected ''boom'')"

text \<open>The example cache after one fetch of \<open>s\<close> has resolved to the empty string at time 100.\<close>

definition emptyStringCache :: AutoFetchFIFOCache where
  "emptyStringCache =
     run exampleCache [CallGetOrFetch ''s'' 100, FetchSettled ''s'' (Resolved (JStr [])) 100]"

text \<open>The example cache with two calls suspended on one fetch of \<open>k\<close>.\<close>

definition twoCallersCache :: AutoFetchFIFOCache where
  "twoCallersCache = run exampleCache [CallGetOrFetch ''k'' 0, CallGetOrFetch ''k'' 1]"

text \<open>
  The spec's scenario for capacity 2: \<open>a\<close>, \<open>b\<close> and \<open>c\<close> are fetched in this order, with reads
  of \<open>b\<close> and \<open>c\<close> in between.
\<close>

definition exampleInsertions :: "insertion list" where
  "exampleInsertions =
     [\<lparr>insKey = ''a'', insValue = JNum 1, callTime = 0, readsDuring = [CallHas ''a'' 0],
        settleTime = 1, readsAfter = []\<rparr>,
      \<lparr>insKey = ''b'', insValue = JNum 2, callTime = 2, readsDuring = [CallGetOrFetch ''b'' 2],
        settleTime = 3,
        readsAfter = [CallGetOrFetch ''b'' 4, CallHas ''b'' 5, CallGetOrFetch ''b'' 6]\<rparr>,
      \<lparr>insKey = ''c'', insValue = JNum 3, callTime = 7, readsDuring = [CallGetOrFetch ''b'' 7],
        settleTime = 8,
        readsAfter = [CallGetOrFetch ''b'' 9, CallGetOrFetch ''c'' 9]\<rparr>]"

text \<open>The example cache with the fetches of \<open>a\<close> and \<open>b\<close> in flight.\<close>

definition twoFetchesCache :: AutoFetchFIFOCache where
  "twoFetchesCache = run exampleCache [CallGetOrFetch ''a'' 0, CallGetOrFetch ''b'' 0]"

text \<open>
  Three calls for \<open>x\<close> among a call and a settlement for \<open>y\<close>, a \<^verbatim>\<open>has\<close> call and a drain.
\<close>

definition interleavedCalls :: "event list" where
  "interleavedCalls =
     [CallGetOrFetch ''x'' 0, CallGetOrFetch ''y'' 1, CallGetOrFetch ''x'' 2, CallHas ''x'' 3,
      FetchSettled ''y'' (Resolved (JNum 1)) 4, CallGetOrFetch ''x'' 5, CallWaitForActiveFetches]"

text \<open>A new cache of capacity 3 whose entries live for 1000 ms.\<close>

definition exampleCache3 :: AutoFetchFIFOCache where
  "exampleCache3 =
     \<lparr>fifoCache = \<lparr>entries = [], capacity = 3, ttlMs = 1000\<rparr>,
      lock = \<lparr>activeTasks = [], nextTaskId = 0, drains = []\<rparr>,
      fetchLog = [], writeLog = [], settled = (\<lambda>cid. None), nextCallId = 0\<rparr>"

text \<open>
  The cache of capacity 3 after \<open>a\<close>, \<open>b\<close> and \<open>c\<close> were fetched in this order, \<open>b\<close> with the
  value 0; then after a call of \<^verbatim>\<open>getOrFetch\<close> for \<open>b\<close> at time 3, whose fetch resolves to 0
  at time 4; then after \<open>d\<close> was fetched; then after \<open>e\<close> was fetched.
\<close>

definition threeKeysCache :: AutoFetchFIFOCache where
  "threeKeysCache =
     run exampleCache3
       [CallGetOrFetch ''a'' 0, FetchSettled ''a'' (Resolved (JNum 1)) 0,
        CallGetOrFetch ''b'' 1, FetchSettled ''b'' (Resolved (JNum 0)) 1,
        CallGetOrFetch ''c'' 2, FetchSettled ''c'' (Resolved (JNum 2)) 2]"

definition reReadCache :: AutoFetchFIFOCache where
  "reReadCache =
     run threeKeysCache [CallGetOrFetch ''b'' 3, FetchSettled ''b'' (Resolved (JNum 0)) 4]"

definition fourKeysCache :: AutoFetchFIFOCache where
  "fourKeysCache =
     run reReadCache [CallGetOrFetch ''d'' 5, FetchSettled ''d'' (Resolved (JNum 3)) 5]"

definition fiveKeysCache :: AutoFetchFIFOCache where
  "fiveKeysCache =
     run fourKeysCache [CallGetOrFetch ''e'' 6, FetchSettled ''e'' (Resolved (JNum 4)) 6]"

text \<open>
  The cache of capacity 2 after \<open>a\<close> was fetched with the value 0, \<open>b\<close> was fetched, a call
  of \<^verbatim>\<open>getOrFetch\<close> for \<open>a\<close> at time 2 had its fetch resolved to 0, and \<open>c\<close> was fetched.
\<close>

definition oldestReadCache :: AutoFetchFIFOCache where
  "oldestReadCache =
     run exampleCache
       [CallGetOrFetch ''a'' 0, FetchSettled ''a'' (Resolved (JNum 0)) 0,
        CallGetOrFetch ''b'' 1, FetchSettled ''b'' (Resolved (JNum 1)) 1,
        CallGetOrFetch ''a'' 2, FetchSettled ''a'' (Resolved (JNum 0)) 2,
        CallGetOrFetch ''c'' 3, FetchSettled ''c'' (Resolved (JNum 3)) 3]"

section \<open>Basic facts\<close>

lemma exampleCache_new: "AutoFetchFIFOCache_new 2 1000 = Inr exampleCache"
  by (simp add: AutoFetchFIFOCache_new_def FIFOCache_new_def ZeroOverheadKeyedLock_new_def exampleCache_def)

lemma find_filter_neq:
  "k' \<noteq> k \<Longrightarrow> find (\<lambda>e. f e = k') (filter (\<lambda>x. f x \<noteq> k) xs) = find (\<lambda>e. f e = k') xs"
  by (induction xs) auto

lemma find_filter_eq: "find (\<lambda>e. f e = k) (filter (\<lambda>x. f x \<noteq> k) xs) = None"
  by (induction xs) auto

lemma find_None_filter_id: "find (\<lambda>e. f e = k) xs = None \<Longrightarrow> filter (\<lambda>x. f x \<noteq> k) xs = xs"
  by (induction xs) (auto split: if_splits)

lemma find_None_iff_keys: "(find (\<lambda>e. f e = k) xs = None) = (k \<notin> f ` set xs)"
  by (induction xs) auto

lemma lookup_None_iff: "(lookup s k = None) = (k \<notin> set (map entryKey (entries s)))"
  by (simp add: lookup_def find_None_iff_keys)

lemma FIFOCache_get_store: "snd (FIFOCache_get s now k) = s"
  by (simp add: FIFOCache_get_def split: option.splits)

lemma FIFOCache_has_store: "snd (FIFOCache_has s now k) = s"
  by (simp add: FIFOCache_has_def split: option.splits)

lemma has_state: "snd (has c now k) = c"
proof -
  have "snd (FIFOCache_has (fifoCache c) now k) = fifoCache c"
    by (rule FIFOCache_has_store)
  then show ?thesis
    by (cases "FIFOCache_has (fifoCache c) now k") (simp add: has_def)
qed

lemma getOrFetch_fifoCache: "fifoCache (getOrFetch c now k) = fifoCache c"
proof -
  have "snd (FIFOCache_get (fifoCache c) now k) = fifoCache c"
    by (rule FIFOCache_get_store)
  then show ?thesis
    by (auto simp add: getOrFetch_def Let_def split: prod.splits option.splits)
qed

lemma run_append: "run c (xs @ ys) = run (run c xs) ys"
  by (simp add: run_def)

lemma run_Cons: "run c (ev # evs) = run (step c ev) evs"
  by (simp add: run_def)

lemma run_Nil: "run c [] = c"
  by (simp add: run_def)

lemma step_read_fifoCache: "isRead ev \<Longrightarrow> fifoCache (step c ev) = fifoCache c"
  by (cases ev) (simp_all add: getOrFetch_fifoCache has_state)

lemma run_reads_fifoCache: "list_all isRead evs \<Longrightarrow> fifoCache (run c evs) = fifoCache c"
  by (induction evs arbitrary: c) (simp_all add: run_Nil run_Cons step_read_fifoCache)

lemma staleCache_fifoCache:
  "fifoCache staleCache =
     \<lparr>entries = [\<lparr>entryKey = ''k'', entryValue = JNum 5, insertedAt = 0\<rparr>], capacity = 2, ttlMs = 1000\<rparr>"
  by (simp add: staleCache_def run_def exampleCache_def getOrFetch_def fetchSettled_def
      FIFOCache_get_def lookup_def getCurrentExecution_def executeExclusive_def awaitExecution_def
      settleTask_def FIFOCache_set_def)

section \<open>Coalescing of concurrent calls\<close>

lemma getCurrentExecution_awaitExecution:
  "getCurrentExecution (awaitExecution lk k w) k' =
     map_option (\<lambda>t. if taskKey t = k then t\<lparr>awaitedBy := awaitedBy t @ [w]\<rparr> else t)
       (getCurrentExecution lk k')"
proof -
  have "find (\<lambda>t. taskKey t = k')
          (map (\<lambda>t. if taskKey t = k then t\<lparr>awaitedBy := awaitedBy t @ [w]\<rparr> else t) xs) =
        map_option (\<lambda>t. if taskKey t = k then t\<lparr>awaitedBy := awaitedBy t @ [w]\<rparr> else t)
          (find (\<lambda>t. taskKey t = k') xs)" for xs
    by (induction xs) auto
  then show ?thesis
    by (simp add: getCurrentExecution_def awaitExecution_def)
qed

lemma find_append_new:
  "find (\<lambda>t. f t = k) xs = None \<Longrightarrow> f x = k \<Longrightarrow> find (\<lambda>t. f t = k) (xs @ [x]) = Some x"
  by (induction xs) (auto split: if_splits)

lemma find_append_other:
  "f x \<noteq> k \<Longrightarrow> find (\<lambda>t. f t = k) (xs @ [x]) = find (\<lambda>t. f t = k) xs"
  by (induction xs) auto

lemma getOrFetch_hit:
  assumes "truthy (cachedValue c now k)"
  shows "getOrFetch c now k =
           c\<lparr>nextCallId := Suc (nextCallId c),
             settled := (settled c)(nextCallId c \<mapsto> Resolved (cachedValue c now k))\<rparr>"
proof -
  obtain r s where g: "FIFOCache_get (fifoCache c) now k = (r, s)"
    by (cases "FIFOCache_get (fifoCache c) now k")
  have s: "s = fifoCache c"
    using FIFOCache_get_store [of "fifoCache c" now k] g by simp
  show ?thesis
    using assms g s by (simp add: getOrFetch_def cachedValue_def Let_def)
qed

lemma getOrFetch_join:
  assumes "\<not> truthy (cachedValue c now k)" and "getCurrentExecution (lock c) k = Some t"
  shows "getOrFetch c now k =
           c\<lparr>nextCallId := Suc (nextCallId c),
             lock := awaitExecution (lock c) k (Joiner (nextCallId c))\<rparr>"
proof -
  obtain r s where g: "FIFOCache_get (fifoCache c) now k = (r, s)"
    by (cases "FIFOCache_get (fifoCache c) now k")
  have s: "s = fifoCache c"
    using FIFOCache_get_store [of "fifoCache c" now k] g by simp
  show ?thesis
    using assms g s by (simp add: getOrFetch_def cachedValue_def Let_def)
qed

lemma getOrFetch_register:
  assumes "\<not> truthy (cachedValue c now k)" and "getCurrentExecution (lock c) k = None"
  shows "getOrFetch c now k =
           c\<lparr>nextCallId := Suc (nextCallId c),
             lock := (lock c)\<lparr>activeTasks := activeTasks (lock c) @
                        [\<lparr>taskId = nextTaskId (lock c), taskKey = k,
                          awaitedBy = [Registrant (nextCallId c)]\<rparr>],
                      nextTaskId := Suc (nextTaskId (lock c))\<rparr>,
             fetchLog := fetchLog c @ [k]\<rparr>"
proof -
  obtain r s where g: "FIFOCache_get (fifoCache c) now k = (r, s)"
    by (cases "FIFOCache_get (fifoCache c) now k")
  have s: "s = fifoCache c"
    using FIFOCache_get_store [of "fifoCache c" now k] g by simp
  have "find (\<lambda>t. taskKey t = k) (activeTasks (lock c)) = None"
    using assms(2) by (simp add: getCurrentExecution_def)
  then have m: "map (\<lambda>t. if taskKey t = k then t\<lparr>awaitedBy := awaitedBy t @ [w]\<rparr> else t)
           (activeTasks (lock c)) = activeTasks (lock c)" for w
    by (induction "activeTasks (lock c)") (auto simp add: find_None_iff map_idI)
  show ?thesis
    using assms g s m by (simp add: getOrFetch_def cachedValue_def executeExclusive_def awaitExecution_def Let_def)
qed


lemma cachedValue_cong: "fifoCache c' = fifoCache c \<Longrightarrow> cachedValue c' now k = cachedValue c now k"
  by (simp add: cachedValue_def)

lemma resume_lock [simp]: "lock (resume now k out c w) = lock c"
  by (cases "(now, k, out, c, w)" rule: resume.cases) simp_all

lemma resume_fetchLog [simp]: "fetchLog (resume now k out c w) = fetchLog c"
  by (cases "(now, k, out, c, w)" rule: resume.cases) simp_all

lemma resume_nextCallId [simp]: "nextCallId (resume now k out c w) = nextCallId c"
  by (cases "(now, k, out, c, w)" rule: resume.cases) simp_all

lemma resume_settled: "settled (resume now k out c w) = (settled c)(callOf w \<mapsto> out)"
  by (cases "(now, k, out, c, w)" rule: resume.cases) simp_all

lemma resume_Rejected_store [simp]:
  "fifoCache (resume now k (Rejected e) c w) = fifoCache c"
  "writeLog (resume now k (Rejected e) c w) = writeLog c"
  by (cases w; simp)+

lemma resume_Joiner_store:
  "isJoiner w \<Longrightarrow> fifoCache (resume now k out c w) = fifoCache c"
  "isJoiner w \<Longrightarrow> writeLog (resume now k out c w) = writeLog c"
  by (cases w; simp)+

lemma foldl_resume_lock [simp]: "lock (foldl (resume now k out) c ws) = lock c"
  by (induction ws arbitrary: c) simp_all

lemma foldl_resume_fetchLog [simp]: "fetchLog (foldl (resume now k out) c ws) = fetchLog c"
  by (induction ws arbitrary: c) simp_all

lemma foldl_resume_nextCallId [simp]: "nextCallId (foldl (resume now k out) c ws) = nextCallId c"
  by (induction ws arbitrary: c) simp_all

lemma foldl_resume_settled:
  "settled (foldl (resume now k out) c ws) cid =
     (if cid \<in> callOf ` set ws then Some out else settled c cid)"
  by (induction ws arbitrary: c) (auto simp add: resume_settled)

lemma foldl_resume_Rejected_store [simp]:
  "fifoCache (foldl (resume now k (Rejected e)) c ws) = fifoCache c"
  "writeLog (foldl (resume now k (Rejected e)) c ws) = writeLog c"
  by (induction ws arbitrary: c) simp_all

lemma foldl_resume_Joiners_store:
  "list_all isJoiner ws \<Longrightarrow> fifoCache (foldl (resume now k out) c ws) = fifoCache c"
  "list_all isJoiner ws \<Longrightarrow> writeLog (foldl (resume now k out) c ws) = writeLog c"
  by (induction ws arbitrary: c) (simp_all add: resume_Joiner_store)

lemma fetchSettled_idle:
  "getCurrentExecution (lock c) k = None \<Longrightarrow> fetchSettled c now k out = c"
  by (simp add: fetchSettled_def settleTask_def)

lemma fetchSettled_active:
  "getCurrentExecution (lock c) k = Some t \<Longrightarrow>
   fetchSettled c now k out =
     foldl (resume now k out)
       (c\<lparr>lock := (lock c)\<lparr>activeTasks := filter (\<lambda>x. taskKey x \<noteq> k) (activeTasks (lock c)),
                            drains := map (filter (\<lambda>i. i \<noteq> taskId t)) (drains (lock c))\<rparr>\<rparr>)
       (awaitedBy t)"
  by (simp add: fetchSettled_def settleTask_def)

lemma fetchSettled_not_active: "getCurrentExecution (lock (fetchSettled c now k out)) k = None"
  by (cases "getCurrentExecution (lock c) k")
     (simp_all add: fetchSettled_idle fetchSettled_active getCurrentExecution_def find_filter_eq)

lemma fetchSettled_fetchLog: "fetchLog (fetchSettled c now k out) = fetchLog c"
  by (cases "getCurrentExecution (lock c) k") (simp_all add: fetchSettled_idle fetchSettled_active)

lemma getCurrentExecution_key: "getCurrentExecution lk k = Some t \<Longrightarrow> taskKey t = k"
  by (auto simp add: getCurrentExecution_def find_Some_iff)

lemma joining_calls:
  assumes "getCurrentExecution (lock c) k = Some t"
    and "\<forall>now \<in> set ts. \<not> truthy (cachedValue c now k)"
  shows "getCurrentExecution (lock (run c (map (CallGetOrFetch k) ts))) k =
           Some (t\<lparr>awaitedBy := awaitedBy t @ map Joiner [nextCallId c ..< nextCallId c + length ts]\<rparr>) \<and>
         fetchLog (run c (map (CallGetOrFetch k) ts)) = fetchLog c \<and>
         fifoCache (run c (map (CallGetOrFetch k) ts)) = fifoCache c \<and>
         writeLog (run c (map (CallGetOrFetch k) ts)) = writeLog c \<and>
         settled (run c (map (CallGetOrFetch k) ts)) = settled c \<and>
         nextCallId (run c (map (CallGetOrFetch k) ts)) = nextCallId c + length ts"
  using assms
proof (induction ts arbitrary: c t)
  case Nil
  then show ?case by (simp add: run_Nil)
next
  case (Cons now ts)
  let ?c1 = "getOrFetch c now k"
  let ?t1 = "t\<lparr>awaitedBy := awaitedBy t @ [Joiner (nextCallId c)]\<rparr>"
  have miss: "\<not> truthy (cachedValue c now k)"
    using Cons.prems(2) by simp
  have c1: "?c1 = c\<lparr>nextCallId := Suc (nextCallId c),
                     lock := awaitExecution (lock c) k (Joiner (nextCallId c))\<rparr>"
    using miss Cons.prems(1) by (rule getOrFetch_join)
  have a: "getCurrentExecution (lock ?c1) k = Some ?t1"
    using Cons.prems(1) getCurrentExecution_key [OF Cons.prems(1)]
    by (simp add: c1 getCurrentExecution_awaitExecution)
  have b: "\<forall>now' \<in> set ts. \<not> truthy (cachedValue ?c1 now' k)"
    using Cons.prems(2) by (simp add: cachedValue_cong [OF getOrFetch_fifoCache])
  have up: "[nextCallId c ..< Suc (nextCallId c + length ts)] =
            nextCallId c # [Suc (nextCallId c) ..< Suc (nextCallId c + length ts)]"
    by (rule upt_conv_Cons) simp
  have n: "nextCallId ?c1 = Suc (nextCallId c)" and f: "fetchLog ?c1 = fetchLog c"
    and w: "writeLog ?c1 = writeLog c" and s: "settled ?c1 = settled c"
    by (simp_all add: c1)
  show ?case
    using Cons.IH [OF a b]
    by (simp add: run_Cons n f w s getOrFetch_fifoCache up del: upt_Suc)
qed


lemma getCurrentExecution_registered:
  assumes "getCurrentExecution (lock c) k = None"
  shows "getCurrentExecution
           ((lock c)\<lparr>activeTasks := activeTasks (lock c) @ [\<lparr>taskId = i, taskKey = k, awaitedBy = ws\<rparr>],
                     nextTaskId := n\<rparr>) k =
         Some \<lparr>taskId = i, taskKey = k, awaitedBy = ws\<rparr>"
  using assms by (simp add: getCurrentExecution_def find_append_new)

text \<open>
  Calls made one after the other, from any state: the first registers the fetch, the
  others join it, nothing settles before the fetch does, and all settle with its outcome.
\<close>

lemma consecutive_calls_share_one_fetch:
  assumes idle: "getCurrentExecution (lock c) k = None"
    and miss: "\<forall>now \<in> set (t0 # ts). \<not> truthy (cachedValue c now k)"
  shows "fetchLog (run c (map (CallGetOrFetch k) (t0 # ts))) = fetchLog c @ [k] \<and>
         settled (run c (map (CallGetOrFetch k) (t0 # ts))) = settled c \<and>
         (\<exists>t. getCurrentExecution (lock (run c (map (CallGetOrFetch k) (t0 # ts)))) k = Some t \<and>
              map callOf (awaitedBy t) = [nextCallId c ..< nextCallId c + length (t0 # ts)]) \<and>
         fetchLog (fetchSettled (run c (map (CallGetOrFetch k) (t0 # ts))) now k out) = fetchLog c @ [k] \<and>
         (\<forall>cid \<in> {nextCallId c ..< nextCallId c + length (t0 # ts)}.
            settled (fetchSettled (run c (map (CallGetOrFetch k) (t0 # ts))) now k out) cid = Some out)"
proof -
  let ?c1 = "getOrFetch c t0 k"
  let ?t1 = "\<lparr>taskId = nextTaskId (lock c), taskKey = k, awaitedBy = [Registrant (nextCallId c)]\<rparr>"
  let ?c2 = "run ?c1 (map (CallGetOrFetch k) ts)"
  let ?t2 = "?t1\<lparr>awaitedBy := awaitedBy ?t1 @ map Joiner [nextCallId ?c1 ..< nextCallId ?c1 + length ts]\<rparr>"
  have miss0: "\<not> truthy (cachedValue c t0 k)"
    using miss by simp
  have c1: "?c1 = c\<lparr>nextCallId := Suc (nextCallId c),
             lock := (lock c)\<lparr>activeTasks := activeTasks (lock c) @ [?t1],
                      nextTaskId := Suc (nextTaskId (lock c))\<rparr>,
             fetchLog := fetchLog c @ [k]\<rparr>"
    using miss0 idle by (rule getOrFetch_register)
  have a: "getCurrentExecution (lock ?c1) k = Some ?t1"
    using getCurrentExecution_registered [OF idle] by (simp add: c1)
  have b: "\<forall>now \<in> set ts. \<not> truthy (cachedValue ?c1 now k)"
    using miss by (simp add: cachedValue_cong [OF getOrFetch_fifoCache])
  note j = joining_calls [OF a b]
  have n1: "nextCallId ?c1 = Suc (nextCallId c)" and f1: "fetchLog ?c1 = fetchLog c @ [k]"
    and s1: "settled ?c1 = settled c"
    by (simp_all add: c1)
  have r: "run c (map (CallGetOrFetch k) (t0 # ts)) = ?c2"
    by (simp add: run_Cons)
  have callers: "map callOf (awaitedBy ?t2) = [nextCallId c ..< nextCallId c + length (t0 # ts)]"
    by (simp add: n1 comp_def upt_conv_Cons del: upt_Suc)
  have t2: "getCurrentExecution (lock ?c2) k = Some ?t2"
    using j by blast
  have log: "fetchLog ?c2 = fetchLog c @ [k]"
    using j by (simp add: f1)
  have pend: "settled ?c2 = settled c"
    using j by (simp add: s1)
  have fin: "settled (fetchSettled ?c2 now k out) cid = Some out"
    if "cid \<in> {nextCallId c ..< nextCallId c + length (t0 # ts)}" for cid
  proof -
    have "cid \<in> callOf ` set (awaitedBy ?t2)"
      using that callers by (metis atLeastLessThan_upt list.set_map set_upt)
    then show ?thesis
      by (simp only: fetchSettled_active [OF t2] foldl_resume_settled if_True)
  qed
  show ?thesis
    unfolding r using callers t2 log pend fin
    by (simp only: fetchSettled_fetchLog) blast
qed

section \<open>Well-formed states\<close>

lemma wellFormed_new: "AutoFetchFIFOCache_new cap ttl = Inr c \<Longrightarrow> wellFormed c"
  by (auto simp add: AutoFetchFIFOCache_new_def FIFOCache_new_def ZeroOverheadKeyedLock_new_def
      wellFormed_def storeInv_def lockInv_def split: if_splits)

lemma length_filter_distinct_key:
  "distinct (map f xs) \<Longrightarrow> k \<in> f ` set xs \<Longrightarrow> Suc (length (filter (\<lambda>x. f x \<noteq> k) xs)) = length xs"
proof (induction xs)
  case Nil
  then show ?case by simp
next
  case (Cons x xs)
  show ?case
  proof (cases "f x = k")
    case True
    then have "k \<notin> f ` set xs"
      using Cons.prems(1) by auto
    then have "filter (\<lambda>x. f x \<noteq> k) xs = xs"
      by (auto simp add: filter_id_conv)
    with True show ?thesis by simp
  next
    case False
    with Cons show ?thesis by auto
  qed
qed

lemma distinct_map_filter_key: "distinct (map f xs) \<Longrightarrow> distinct (map f (filter P xs))"
  by (induction xs) auto

lemma distinct_map_tl: "distinct (map f xs) \<Longrightarrow> distinct (map f (tl xs))"
  by (cases xs) auto

lemma storeInv_set: "storeInv s \<Longrightarrow> storeInv (FIFOCache_set s now k v)"
proof -
  assume inv: "storeInv s"
  show ?thesis
  proof (cases "lookup s k")
    case (Some e)
    then have "k \<in> entryKey ` set (entries s)"
      using lookup_None_iff [of s k] by auto
    then have "Suc (length (filter (\<lambda>x. entryKey x \<noteq> k) (entries s))) = length (entries s)"
      using inv by (simp add: storeInv_def length_filter_distinct_key)
    then show ?thesis
      using inv Some by (auto simp add: FIFOCache_set_def storeInv_def distinct_map_filter_key Let_def)
  next
    case None
    then have k: "k \<notin> entryKey ` set (entries s)"
      using lookup_None_iff [of s k] by simp
    then have "k \<notin> entryKey ` set (tl (entries s))"
      by (cases "entries s") auto
    then show ?thesis
      using inv None k
      by (auto simp add: FIFOCache_set_def storeInv_def distinct_map_tl Let_def)
  qed
qed

lemma storeInv_delete: "storeInv s \<Longrightarrow> storeInv (snd (FIFOCache_delete s k))"
proof -
  assume inv: "storeInv s"
  have "length (entries s) \<le> capacity s"
    using inv by (simp add: storeInv_def)
  then have "length (filter (\<lambda>x. entryKey x \<noteq> k) (entries s)) \<le> capacity s"
    by (rule le_trans [OF length_filter_le])
  then show ?thesis
    using inv
    by (auto simp add: FIFOCache_delete_def storeInv_def distinct_map_filter_key split: option.splits)
qed

lemma storeInv_clear: "storeInv s \<Longrightarrow> storeInv (FIFOCache_clear s)"
  by (simp add: FIFOCache_clear_def storeInv_def)


lemma registrantThenJoiners_snoc:
  "registrantThenJoiners ws \<Longrightarrow> registrantThenJoiners (ws @ [Joiner n])"
  by (cases ws rule: registrantThenJoiners.cases) simp_all

lemma registrantThenJoiners_shape:
  "registrantThenJoiners ws \<Longrightarrow> \<exists>r js. ws = Registrant r # js \<and> list_all isJoiner js"
  by (cases ws rule: registrantThenJoiners.cases) simp_all

lemma lockInv_join: "lockInv lk \<Longrightarrow> lockInv (awaitExecution lk k (Joiner n))"
proof -
  let ?g = "\<lambda>t. if taskKey t = k then t\<lparr>awaitedBy := awaitedBy t @ [Joiner n]\<rparr> else t"
  assume inv: "lockInv lk"
  have keys: "map taskKey (map ?g xs) = map taskKey xs" for xs
    by (induction xs) simp_all
  have ids: "map taskId (map ?g xs) = map taskId xs" for xs
    by (induction xs) simp_all
  have shape: "list_all (\<lambda>t. registrantThenJoiners (awaitedBy t)) xs \<Longrightarrow>
               list_all (\<lambda>t. registrantThenJoiners (awaitedBy t)) (map ?g xs)" for xs
    by (induction xs) (simp_all add: registrantThenJoiners_snoc)
  have fresh: "list_all (\<lambda>t. taskId t < m) xs \<Longrightarrow> list_all (\<lambda>t. taskId t < m) (map ?g xs)" for xs m
    by (induction xs) simp_all
  show ?thesis
    using inv shape [of "activeTasks lk"] fresh [of "nextTaskId lk" "activeTasks lk"]
    unfolding lockInv_def awaitExecution_def
    by (simp add: keys ids del: map_map)
qed

lemma lockInv_register:
  assumes inv: "lockInv lk" and idle: "getCurrentExecution lk k = None"
  shows "lockInv (lk\<lparr>activeTasks := activeTasks lk @
                        [\<lparr>taskId = nextTaskId lk, taskKey = k, awaitedBy = [Registrant n]\<rparr>],
                     nextTaskId := Suc (nextTaskId lk)\<rparr>)"
proof -
  have k: "k \<notin> taskKey ` set (activeTasks lk)"
    using idle by (simp add: getCurrentExecution_def find_None_iff_keys)
  have i: "nextTaskId lk \<notin> taskId ` set (activeTasks lk)"
    using inv by (auto simp add: lockInv_def list_all_iff)
  have f: "list_all (\<lambda>t. taskId t < Suc (nextTaskId lk)) (activeTasks lk)"
    using inv by (auto simp add: lockInv_def list_all_iff)
  have d: "list_all (\<lambda>d. list_all (\<lambda>i. i = nextTaskId lk \<or> i \<in> taskId ` set (activeTasks lk)) d) (drains lk)"
    using inv by (auto simp add: lockInv_def list_all_iff)
  show ?thesis
    using inv k i f d by (simp add: lockInv_def)
qed

lemma lockInv_settle:
  assumes inv: "lockInv lk" and act: "getCurrentExecution lk k = Some t"
  shows "lockInv (lk\<lparr>activeTasks := filter (\<lambda>x. taskKey x \<noteq> k) (activeTasks lk),
                     drains := map (filter (\<lambda>i. i \<noteq> taskId t)) (drains lk)\<rparr>)"
proof -
  have t: "t \<in> set (activeTasks lk)" "taskKey t = k"
    using act by (auto simp add: getCurrentExecution_def find_Some_iff)
  have same: "x = t" if "x \<in> set (activeTasks lk)" "taskKey x = k" for x
    using inv t that by (auto simp add: lockInv_def distinct_map inj_on_def)
  have d: "i \<in> taskId ` set (filter (\<lambda>x. taskKey x \<noteq> k) (activeTasks lk))"
    if "i \<in> taskId ` set (activeTasks lk)" "i \<noteq> taskId t" for i
    using that same by auto
  have dr: "list_all (\<lambda>d. list_all (\<lambda>i. i \<in> taskId ` set (filter (\<lambda>x. taskKey x \<noteq> k) (activeTasks lk))) d)
              (map (filter (\<lambda>i. i \<noteq> taskId t)) (drains lk))"
    using inv d by (auto simp add: lockInv_def list_all_iff)
  show ?thesis
    using inv dr
    by (simp add: lockInv_def distinct_map_filter_key) (auto simp add: list_all_iff)
qed

lemma lockInv_wait: "lockInv lk \<Longrightarrow> lockInv (waitForAllExistingTasksToComplete lk)"
  by (auto simp add: lockInv_def waitForAllExistingTasksToComplete_def list_all_iff)

lemma foldl_resume_storeInv:
  "storeInv (fifoCache c) \<Longrightarrow> storeInv (fifoCache (foldl (resume now k out) c ws))"
proof (induction ws arbitrary: c)
  case Nil
  then show ?case by simp
next
  case (Cons w ws)
  have "storeInv (fifoCache (resume now k out c w))"
    using Cons.prems by (cases "(now, k, out, c, w)" rule: resume.cases) (simp_all add: storeInv_set)
  then show ?case
    using Cons.IH by simp
qed

lemma wellFormed_getOrFetch: "wellFormed c \<Longrightarrow> wellFormed (getOrFetch c now k)"
proof -
  assume wf: "wellFormed c"
  show ?thesis
  proof (cases "truthy (cachedValue c now k)")
    case True
    then show ?thesis
      using wf by (simp add: getOrFetch_hit wellFormed_def)
  next
    case False
    show ?thesis
    proof (cases "getCurrentExecution (lock c) k")
      case None
      show ?thesis
        using wf lockInv_register [OF _ None]
        by (simp add: getOrFetch_register [OF False None] wellFormed_def)
    next
      case (Some t)
      show ?thesis
        using wf lockInv_join
        by (simp add: getOrFetch_join [OF False Some] wellFormed_def)
    qed
  qed
qed

lemma wellFormed_fetchSettled: "wellFormed c \<Longrightarrow> wellFormed (fetchSettled c now k out)"
proof -
  assume wf: "wellFormed c"
  show ?thesis
  proof (cases "getCurrentExecution (lock c) k")
    case None
    then show ?thesis
      using wf by (simp add: fetchSettled_idle)
  next
    case (Some t)
    show ?thesis
      using wf lockInv_settle [OF _ Some] foldl_resume_storeInv
      by (simp add: fetchSettled_active [OF Some] wellFormed_def)
  qed
qed

lemma wellFormed_step: "wellFormed c \<Longrightarrow> wellFormed (step c ev)"
proof (cases ev)
  case (CallGetOrFetch k now)
  assume "wellFormed c"
  then show ?thesis
    using CallGetOrFetch by (simp add: wellFormed_getOrFetch)
next
  case (FetchSettled k out now)
  assume "wellFormed c"
  then show ?thesis
    using FetchSettled by (simp add: wellFormed_fetchSettled)
next
  case (CallHas k now)
  assume "wellFormed c"
  then show ?thesis
    using CallHas by (simp add: has_state)
next
  case (CallDelete k)
  assume "wellFormed c"
  then show ?thesis
    using CallDelete storeInv_delete [of "fifoCache c" k]
    by (cases "FIFOCache_delete (fifoCache c) k") (simp add: delete_def wellFormed_def)
next
  case CallClear
  assume "wellFormed c"
  then show ?thesis
    using CallClear by (simp add: clear_def wellFormed_def storeInv_clear)
next
  case CallWaitForActiveFetches
  assume "wellFormed c"
  then show ?thesis
    using CallWaitForActiveFetches
    by (simp add: waitForActiveFetchesToComplete_def wellFormed_def lockInv_wait)
qed

lemma wellFormed_run: "wellFormed c \<Longrightarrow> wellFormed (run c evs)"
  by (induction evs arbitrary: c) (simp_all add: run_Nil run_Cons wellFormed_step)

section \<open>Store writes and falsy values\<close>

lemmas eval_defs =
  run_def exampleCache_def getOrFetch_def fetchSettled_def FIFOCache_get_def FIFOCache_has_def
  lookup_def getCurrentExecution_def executeExclusive_def awaitExecution_def settleTask_def
  FIFOCache_set_def has_def cachedValue_def size_cache_def FIFOCache_size_def Let_def

lemma falsyCache_eval:
  "falsyCache =
     \<lparr>fifoCache = \<lparr>entries = [\<lparr>entryKey = ''k'', entryValue = JNum 0, insertedAt = 0\<rparr>],
                   capacity = 2, ttlMs = 1000\<rparr>,
      lock = \<lparr>activeTasks = [], nextTaskId = 1, drains = []\<rparr>,
      fetchLog = [''k''], writeLog = [(0, ''k'', JNum 0)],
      settled = (\<lambda>cid. None)(0 \<mapsto> Resolved (JNum 0)), nextCallId = 1\<rparr>"
  by (simp add: falsyCache_def eval_defs)

lemma refetchingCache_eval:
  "refetchingCache =
     \<lparr>fifoCache = \<lparr>entries = [\<lparr>entryKey = ''k'', entryValue = JNum 0, insertedAt = 0\<rparr>],
                   capacity = 2, ttlMs = 1000\<rparr>,
      lock = \<lparr>activeTasks = [\<lparr>taskId = 1, taskKey = ''k'', awaitedBy = [Registrant 1]\<rparr>],
               nextTaskId = 2, drains = []\<rparr>,
      fetchLog = [''k'', ''k''], writeLog = [(0, ''k'', JNum 0)],
      settled = (\<lambda>cid. None)(0 \<mapsto> Resolved (JNum 0)), nextCallId = 2\<rparr>"
  by (simp add: refetchingCache_def falsyCache_eval eval_defs)

text \<open>
  A stored, unexpired entry whose value is truthy is returned at once: the call settles
  with the value, and the lock, the fetcher and the store are left alone.
\<close>

lemma fresh_truthy_entry_is_returned:
  assumes "lookup (fifoCache c) k = Some e"
    and "now < insertedAt e + ttlMs (fifoCache c)"
    and "truthy (entryValue e)"
  shows "settled (getOrFetch c now k) (nextCallId c) = Some (Resolved (entryValue e))"
    and "lock (getOrFetch c now k) = lock c"
    and "fetchLog (getOrFetch c now k) = fetchLog c"
    and "fifoCache (getOrFetch c now k) = fifoCache c"
proof -
  have v: "cachedValue c now k = entryValue e"
    using assms(1,2) by (simp add: cachedValue_def FIFOCache_get_def)
  then have hit: "truthy (cachedValue c now k)"
    using assms(3) by simp
  show "settled (getOrFetch c now k) (nextCallId c) = Some (Resolved (entryValue e))"
    and "lock (getOrFetch c now k) = lock c"
    and "fetchLog (getOrFetch c now k) = fetchLog c"
    and "fifoCache (getOrFetch c now k) = fifoCache c"
    by (simp_all add: getOrFetch_hit [OF hit] v)
qed

text \<open>
  Claim C2. The claim is that a stored, unexpired entry is returned at once, with no
  suspension, no fetch and no look at the lock. The documentation of \<^verbatim>\<open>getOrFetch\<close> says the
  same. The hit check is \<^verbatim>\<open>if (value)\<close>, so it fails for a stored value that is falsy: at time
  1 the store holds a fresh entry for \<open>k\<close> with the value 0, and \<^verbatim>\<open>getOrFetch(k)\<close> does not
  settle, invokes the fetcher a second time and registers a task in the lock.
\<close>

theorem fresh_falsy_entry_is_fetched_again:
  "fst (FIFOCache_get (fifoCache falsyCache) 1 ''k'') = Some (JNum 0) \<and>
   fetchLog falsyCache = [''k''] \<and>
   fetchLog (getOrFetch falsyCache 1 ''k'') = [''k'', ''k''] \<and>
   settled (getOrFetch falsyCache 1 ''k'') (nextCallId falsyCache) = None \<and>
   getCurrentExecution (lock (getOrFetch falsyCache 1 ''k'')) ''k'' =
     Some \<lparr>taskId = 1, taskKey = ''k'', awaitedBy = [Registrant 1]\<rparr>"
  by (simp add: falsyCache_eval eval_defs)

text \<open>
  Claim C4. The claim is that after a rejected fetch of \<open>k\<close> nothing is cached for \<open>k\<close>:
  \<^verbatim>\<open>has(k)\<close> is false. The key \<open>k\<close> holds a fresh entry with the value 0; because of the
  truthiness test of the hit check, \<^verbatim>\<open>getOrFetch(k)\<close> at time 1 fetches again; that fetch
  is rejected at time 2, the call rejects with the error, and \<^verbatim>\<open>has(k)\<close> is true.
\<close>

theorem has_true_after_rejected_refetch:
  "fst (has falsyCache 1 ''k'') \<and>
   fetchLog refetchingCache = [''k'', ''k''] \<and>
   settled rejectedRefetchCache 1 = Some (Rejected ''boom'') \<and>
   fst (has rejectedRefetchCache 2 ''k'') \<and>
   size_cache rejectedRefetchCache = 1"
  by (simp add: rejectedRefetchCache_def refetchingCache_eval falsyCache_eval eval_defs)

text \<open>
  Claim C6. The claim is that \<^verbatim>\<open>has(k)\<close> and the hit check of \<^verbatim>\<open>getOrFetch(k)\<close> both report
  an entry present at every read time before \<open>T + ttlMs\<close>. The entry for \<open>s\<close> was inserted at
  time 100 with the empty string as its value and lives for 1000 ms. At time 1099,
  \<^verbatim>\<open>has\<close> reports it present, and the hit check of \<^verbatim>\<open>getOrFetch\<close> reports it absent: the call
  does not settle and the fetcher is invoked again.
\<close>

theorem hit_check_misses_fresh_empty_string:
  "lookup (fifoCache emptyStringCache) ''s'' =
     Some \<lparr>entryKey = ''s'', entryValue = JStr [], insertedAt = 100\<rparr> \<and>
   1099 < 100 + ttlMs (fifoCache emptyStringCache) \<and>
   fst (has emptyStringCache 1099 ''s'') \<and>
   \<not> truthy (cachedValue emptyStringCache 1099 ''s'') \<and>
   settled (getOrFetch emptyStringCache 1099 ''s'') (nextCallId emptyStringCache) = None \<and>
   fetchLog (getOrFetch emptyStringCache 1099 ''s'') = fetchLog emptyStringCache @ [''s'']"
  by (simp add: emptyStringCache_def eval_defs)

text \<open>
  Claim C3, as stated, fails. The claim is that every later \<^verbatim>\<open>getOrFetch(k)\<close> invokes the
  fetcher again. The store holds a fresh entry for \<open>k\<close> with the value 0 and a second fetch
  of \<open>k\<close> is in flight. A call at time 2 misses the store, joins the fetch in flight, and
  the fetcher is not invoked.
\<close>

theorem joined_call_invokes_no_fetch:
  "lookup (fifoCache refetchingCache) ''k'' =
     Some \<lparr>entryKey = ''k'', entryValue = JNum 0, insertedAt = 0\<rparr> \<and>
   \<not> truthy (cachedValue refetchingCache 2 ''k'') \<and>
   fetchLog (getOrFetch refetchingCache 2 ''k'') = fetchLog refetchingCache \<and>
   fetchLog (getOrFetch refetchingCache 2 ''k'') \<noteq> fetchLog refetchingCache @ [''k'']"
  by (simp add: refetchingCache_eval eval_defs)


lemma getOrFetch_writeLog: "writeLog (getOrFetch c now k) = writeLog c"
proof (cases "truthy (cachedValue c now k)")
  case True
  then show ?thesis by (simp add: getOrFetch_hit)
next
  case False
  then show ?thesis
    by (cases "getCurrentExecution (lock c) k") (simp_all add: getOrFetch_register getOrFetch_join)
qed

lemma joiners_are_calls: "list_all isJoiner js \<Longrightarrow> js = map Joiner (map callOf js)"
proof (induction js)
  case Nil
  then show ?case by simp
next
  case (Cons w js)
  then show ?case by (cases w) simp_all
qed

lemma FIFOCache_set_lookup:
  "lookup (FIFOCache_set s now k v) k = Some \<lparr>entryKey = k, entryValue = v, insertedAt = now\<rparr>"
proof (cases "lookup s k")
  case None
  then have "find (\<lambda>e. entryKey e = k) (tl (entries s)) = None"
    by (cases "entries s") (auto simp add: lookup_def split: if_splits)
  with None show ?thesis
    by (simp add: FIFOCache_set_def lookup_def find_append_new Let_def)
next
  case (Some e)
  then show ?thesis
    by (simp add: FIFOCache_set_def lookup_def find_append_new find_filter_eq Let_def)
qed

lemma fetchSettled_Resolved_shape:
  assumes act: "getCurrentExecution (lock c) k = Some t"
    and shape: "awaitedBy t = Registrant r # js" "list_all isJoiner js"
  shows "writeLog (fetchSettled c now k (Resolved v)) = writeLog c @ [(r, k, v)]"
    and "fifoCache (fetchSettled c now k (Resolved v)) = FIFOCache_set (fifoCache c) now k v"
  using shape by (simp_all add: fetchSettled_active [OF act] foldl_resume_Joiners_store)

lemma fetchSettled_Rejected_store:
  "writeLog (fetchSettled c now k (Rejected e)) = writeLog c"
  "fifoCache (fetchSettled c now k (Rejected e)) = fifoCache c"
  by (cases "getCurrentExecution (lock c) k"; simp add: fetchSettled_idle fetchSettled_active)+

lemma fetchSettled_settled:
  assumes act: "getCurrentExecution (lock c) k = Some t"
  shows "settled (fetchSettled c now k out) cid =
           (if cid \<in> callOf ` set (awaitedBy t) then Some out else settled c cid)"
  by (simp add: fetchSettled_active [OF act] foldl_resume_settled)

text \<open>
  Claim C8. In every state reached from a new cache, the task of a key with a fetch in
  flight is awaited by the call that registered it, followed by the calls that joined
  it. When the fetch resolves, there is exactly one store write, \<open>set(k, v)\<close>, made by the
  registering call; the store becomes what \<open>set\<close> makes of it, and the registering call
  and every joined call resolve with the value. When the fetch is rejected there is no
  write and the store is unchanged. A call of \<^verbatim>\<open>getOrFetch\<close>, up to its suspension, writes
  nothing either; so \<^verbatim>\<open>getOrFetch\<close> changes the store through \<open>set\<close> only.
\<close>

theorem one_store_write_per_successful_fetch:
  assumes new: "AutoFetchFIFOCache_new cap ttl = Inr c0"
    and reach: "c = run c0 evs"
    and act: "getCurrentExecution (lock c) k = Some t"
  shows "(\<exists>r js. awaitedBy t = Registrant r # map Joiner js \<and>
            writeLog (fetchSettled c now k (Resolved v)) = writeLog c @ [(r, k, v)] \<and>
            fifoCache (fetchSettled c now k (Resolved v)) = FIFOCache_set (fifoCache c) now k v \<and>
            (\<forall>cid \<in> set (r # js). settled (fetchSettled c now k (Resolved v)) cid = Some (Resolved v))) \<and>
         writeLog (fetchSettled c now k (Rejected e)) = writeLog c \<and>
         fifoCache (fetchSettled c now k (Rejected e)) = fifoCache c \<and>
         writeLog (getOrFetch c now' k') = writeLog c \<and>
         fifoCache (getOrFetch c now' k') = fifoCache c"
proof -
  have "wellFormed c"
    using wellFormed_new [OF new] reach by (simp add: wellFormed_run)
  moreover have "t \<in> set (activeTasks (lock c))"
    using act by (auto simp add: getCurrentExecution_def find_Some_iff)
  ultimately have "registrantThenJoiners (awaitedBy t)"
    by (simp add: wellFormed_def lockInv_def list_all_iff)
  then obtain r ws where ws: "awaitedBy t = Registrant r # ws" "list_all isJoiner ws"
    using registrantThenJoiners_shape by blast
  let ?js = "map callOf ws"
  have shape: "awaitedBy t = Registrant r # map Joiner ?js"
    using ws joiners_are_calls by simp
  have all: "\<forall>cid \<in> set (r # ?js). settled (fetchSettled c now k (Resolved v)) cid = Some (Resolved v)"
    by (auto simp add: fetchSettled_settled [OF act] ws(1))
  show ?thesis
    using shape all fetchSettled_Resolved_shape [OF act ws]
    by (simp only: fetchSettled_Rejected_store getOrFetch_writeLog getOrFetch_fifoCache) blast
qed

lemma twoCallersCache_eval:
  "twoCallersCache =
     \<lparr>fifoCache = \<lparr>entries = [], capacity = 2, ttlMs = 1000\<rparr>,
      lock = \<lparr>activeTasks = [\<lparr>taskId = 0, taskKey = ''k'', awaitedBy = [Registrant 0, Joiner 1]\<rparr>],
               nextTaskId = 1, drains = []\<rparr>,
      fetchLog = [''k''], writeLog = [], settled = (\<lambda>cid. None), nextCallId = 2\<rparr>"
  by (simp add: twoCallersCache_def eval_defs)

theorem one_store_write_per_successful_fetch_witness:
  "AutoFetchFIFOCache_new 2 1000 = Inr exampleCache \<and>
   twoCallersCache = run exampleCache [CallGetOrFetch ''k'' 0, CallGetOrFetch ''k'' 1] \<and>
   getCurrentExecution (lock twoCallersCache) ''k'' =
     Some \<lparr>taskId = 0, taskKey = ''k'', awaitedBy = [Registrant 0, Joiner 1]\<rparr> \<and>
   writeLog (fetchSettled twoCallersCache 2 ''k'' (Resolved (JNum 5))) = [(0, ''k'', JNum 5)] \<and>
   settled (fetchSettled twoCallersCache 2 ''k'' (Resolved (JNum 5))) 0 = Some (Resolved (JNum 5)) \<and>
   settled (fetchSettled twoCallersCache 2 ''k'' (Resolved (JNum 5))) 1 = Some (Resolved (JNum 5)) \<and>
   writeLog (fetchSettled twoCallersCache 2 ''k'' (Rejected ''boom'')) = []"
proof -
  have a: "AutoFetchFIFOCache_new 2 1000 = Inr exampleCache"
    by (rule exampleCache_new)
  have b: "twoCallersCache = run exampleCache [CallGetOrFetch ''k'' 0, CallGetOrFetch ''k'' 1]"
    by (simp add: twoCallersCache_def)
  have c: "getCurrentExecution (lock twoCallersCache) ''k'' =
     Some \<lparr>taskId = 0, taskKey = ''k'', awaitedBy = [Registrant 0, Joiner 1]\<rparr>"
    by (simp add: twoCallersCache_eval getCurrentExecution_def)
  have w: "writeLog twoCallersCache = []"
    by (simp add: twoCallersCache_eval)
  show ?thesis
    using one_store_write_per_successful_fetch [OF a b c, of 2 "JNum 5" "''boom''" 0 "''k''"] a b c w
    by auto
qed


lemma cachedValue_falsy_entry:
  assumes "lookup (fifoCache c) k = Some e" and "\<not> truthy (entryValue e)"
  shows "\<not> truthy (cachedValue c now k)"
  using assms by (simp add: cachedValue_def FIFOCache_get_def)

lemma getOrFetch_miss_settled:
  assumes "\<not> truthy (cachedValue c now k)"
  shows "settled (getOrFetch c now k) = settled c"
  by (cases "getCurrentExecution (lock c) k")
     (simp_all add: getOrFetch_register [OF assms] getOrFetch_join [OF assms])

text \<open>
  Claim C3, amended. A fetch of \<open>k\<close> that resolves to a falsy value \<open>v\<close> resolves the call
  that registered it with \<open>v\<close> and stores \<open>v\<close> for \<open>k\<close>; the next call for \<open>k\<close>, at any time,
  invokes the fetcher again. In any state \<open>c'\<close> whose entry for \<open>k\<close> holds \<open>v\<close>, a call of
  \<^verbatim>\<open>getOrFetch(k)\<close> at any time misses and does not settle at once. It invokes the fetcher
  again when no fetch of \<open>k\<close> is in flight, and joins the fetch in flight otherwise,
  without invoking the fetcher.
\<close>

theorem falsy_value_is_stored_but_never_hit:
  assumes falsy: "\<not> truthy v"
    and idle: "getCurrentExecution (lock c) k = None"
    and miss: "\<not> truthy (cachedValue c t0 k)"
    and stored: "lookup (fifoCache c') k = Some e" "entryValue e = v"
  shows "settled (fetchSettled (getOrFetch c t0 k) t1 k (Resolved v)) (nextCallId c) = Some (Resolved v) \<and>
         lookup (fifoCache (fetchSettled (getOrFetch c t0 k) t1 k (Resolved v))) k =
           Some \<lparr>entryKey = k, entryValue = v, insertedAt = t1\<rparr> \<and>
         fetchLog (getOrFetch (fetchSettled (getOrFetch c t0 k) t1 k (Resolved v)) now k) =
           fetchLog c @ [k, k] \<and>
         \<not> truthy (cachedValue c' now k) \<and>
         settled (getOrFetch c' now k) = settled c' \<and>
         (getCurrentExecution (lock c') k = None \<longrightarrow>
            fetchLog (getOrFetch c' now k) = fetchLog c' @ [k]) \<and>
         (\<forall>t. getCurrentExecution (lock c') k = Some t \<longrightarrow>
            fetchLog (getOrFetch c' now k) = fetchLog c' \<and>
            getCurrentExecution (lock (getOrFetch c' now k)) k =
              Some (t\<lparr>awaitedBy := awaitedBy t @ [Joiner (nextCallId c')]\<rparr>))"
proof -
  let ?c1 = "getOrFetch c t0 k"
  let ?t1 = "\<lparr>taskId = nextTaskId (lock c), taskKey = k, awaitedBy = [Registrant (nextCallId c)]\<rparr>"
  let ?c2 = "fetchSettled ?c1 t1 k (Resolved v)"
  have c1: "?c1 = c\<lparr>nextCallId := Suc (nextCallId c),
             lock := (lock c)\<lparr>activeTasks := activeTasks (lock c) @ [?t1],
                      nextTaskId := Suc (nextTaskId (lock c))\<rparr>,
             fetchLog := fetchLog c @ [k]\<rparr>"
    using miss idle by (rule getOrFetch_register)
  have a: "getCurrentExecution (lock ?c1) k = Some ?t1"
    using getCurrentExecution_registered [OF idle] by (simp add: c1)
  have p1: "settled ?c2 (nextCallId c) = Some (Resolved v)"
    by (simp add: fetchSettled_settled [OF a])
  have st: "fifoCache ?c2 = FIFOCache_set (fifoCache c) t1 k v"
    using fetchSettled_Resolved_shape(2) [OF a, of "nextCallId c" "[]" t1 v]
    by (simp add: getOrFetch_fifoCache)
  have p2: "lookup (fifoCache ?c2) k = Some \<lparr>entryKey = k, entryValue = v, insertedAt = t1\<rparr>"
    by (simp add: st FIFOCache_set_lookup)
  have m2: "\<not> truthy (cachedValue ?c2 now k)"
    using cachedValue_falsy_entry [OF p2] falsy by simp
  have i2: "getCurrentExecution (lock ?c2) k = None"
    by (rule fetchSettled_not_active)
  have l2: "fetchLog ?c2 = fetchLog c @ [k]"
    by (simp add: fetchSettled_fetchLog c1)
  have p3: "fetchLog (getOrFetch ?c2 now k) = fetchLog c @ [k, k]"
    by (simp add: getOrFetch_register [OF m2 i2] l2)
  have m: "\<not> truthy (cachedValue c' now k)"
    using cachedValue_falsy_entry [OF stored(1)] stored(2) falsy by simp
  have p5: "settled (getOrFetch c' now k) = settled c'"
    using m by (rule getOrFetch_miss_settled)
  have p6: "fetchLog (getOrFetch c' now k) = fetchLog c' @ [k]"
    if "getCurrentExecution (lock c') k = None"
    by (simp add: getOrFetch_register [OF m that])
  have p7: "fetchLog (getOrFetch c' now k) = fetchLog c' \<and>
            getCurrentExecution (lock (getOrFetch c' now k)) k =
              Some (t\<lparr>awaitedBy := awaitedBy t @ [Joiner (nextCallId c')]\<rparr>)"
    if "getCurrentExecution (lock c') k = Some t" for t
    using that getCurrentExecution_key [OF that]
    by (simp add: getOrFetch_join [OF m that] getCurrentExecution_awaitExecution)
  show ?thesis
    using p1 p2 p3 m p5 p6 p7 by blast
qed

theorem falsy_value_is_stored_but_never_hit_witness:
  "\<not> truthy (JNum 0) \<and>
   getCurrentExecution (lock exampleCache) ''k'' = None \<and>
   \<not> truthy (cachedValue exampleCache 0 ''k'') \<and>
   lookup (fifoCache refetchingCache) ''k'' =
     Some \<lparr>entryKey = ''k'', entryValue = JNum 0, insertedAt = 0\<rparr> \<and>
   getCurrentExecution (lock refetchingCache) ''k'' =
     Some \<lparr>taskId = 1, taskKey = ''k'', awaitedBy = [Registrant 1]\<rparr> \<and>
   settled (fetchSettled (getOrFetch exampleCache 0 ''k'') 0 ''k'' (Resolved (JNum 0))) 0 =
     Some (Resolved (JNum 0)) \<and>
   fetchLog (getOrFetch (fetchSettled (getOrFetch exampleCache 0 ''k'') 0 ''k'' (Resolved (JNum 0))) 1 ''k'') =
     [''k'', ''k''] \<and>
   fetchLog (getOrFetch refetchingCache 2 ''k'') = [''k'', ''k''] \<and>
   getCurrentExecution (lock (getOrFetch refetchingCache 2 ''k'')) ''k'' =
     Some \<lparr>taskId = 1, taskKey = ''k'', awaitedBy = [Registrant 1, Joiner 2]\<rparr>"
proof -
  have a: "\<not> truthy (JNum 0)"
    by simp
  have b: "getCurrentExecution (lock exampleCache) ''k'' = None"
    by (simp add: exampleCache_def getCurrentExecution_def)
  have c: "\<not> truthy (cachedValue exampleCache 0 ''k'')"
    by (simp add: exampleCache_def cachedValue_def FIFOCache_get_def lookup_def)
  have d: "lookup (fifoCache refetchingCache) ''k'' =
     Some \<lparr>entryKey = ''k'', entryValue = JNum 0, insertedAt = 0\<rparr>"
    by (simp add: refetchingCache_eval lookup_def)
  have e: "entryValue \<lparr>entryKey = ''k'', entryValue = JNum 0, insertedAt = 0\<rparr> = JNum 0"
    by simp
  have f: "getCurrentExecution (lock refetchingCache) ''k'' =
     Some \<lparr>taskId = 1, taskKey = ''k'', awaitedBy = [Registrant 1]\<rparr>"
    by (simp add: refetchingCache_eval getCurrentExecution_def)
  have g: "fetchLog exampleCache = []" "fetchLog refetchingCache = [''k'', ''k'']"
    "nextCallId exampleCache = 0" "nextCallId refetchingCache = 2"
    by (simp_all add: refetchingCache_eval exampleCache_def)
  show ?thesis
    using falsy_value_is_stored_but_never_hit [OF a b c d e, of 0 1] 
      falsy_value_is_stored_but_never_hit [OF a b c d e, of 0 2] a b c d f g
    by simp
qed

section \<open>Rejected fetches\<close>

text \<open>
  What a rejected fetch does to a call that registered it on a miss: the call rejects
  with the error, the store, its size and the write log are unchanged, the key leaves
  the active set, and a retry that misses invokes the fetcher again. When the key was
  missing or expired at the call, \<^verbatim>\<open>has\<close> is false after the rejection.
\<close>

lemma expired_stays_absent:
  assumes "fst (FIFOCache_get s t0 k) = None" and "t0 \<le> t1"
  shows "\<not> fst (FIFOCache_has s t1 k)"
  using assms by (auto simp add: FIFOCache_get_def FIFOCache_has_def split: option.splits if_splits)

lemma rejected_fetch_effects:
  assumes idle: "getCurrentExecution (lock c) k = None"
    and miss: "\<not> truthy (cachedValue c t0 k)"
  shows "settled (fetchSettled (getOrFetch c t0 k) t1 k (Rejected e)) (nextCallId c) = Some (Rejected e)"
    and "fifoCache (fetchSettled (getOrFetch c t0 k) t1 k (Rejected e)) = fifoCache c"
    and "writeLog (fetchSettled (getOrFetch c t0 k) t1 k (Rejected e)) = writeLog c"
    and "size_cache (fetchSettled (getOrFetch c t0 k) t1 k (Rejected e)) = size_cache c"
    and "getCurrentExecution (lock (fetchSettled (getOrFetch c t0 k) t1 k (Rejected e))) k = None"
    and "\<not> truthy (cachedValue c t2 k) \<Longrightarrow>
         fetchLog (getOrFetch (fetchSettled (getOrFetch c t0 k) t1 k (Rejected e)) t2 k) =
           fetchLog c @ [k, k]"
    and "fst (FIFOCache_get (fifoCache c) t0 k) = None \<Longrightarrow> t0 \<le> t1 \<Longrightarrow>
         \<not> fst (has (fetchSettled (getOrFetch c t0 k) t1 k (Rejected e)) t1 k)"
proof -
  let ?c1 = "getOrFetch c t0 k"
  let ?t1 = "\<lparr>taskId = nextTaskId (lock c), taskKey = k, awaitedBy = [Registrant (nextCallId c)]\<rparr>"
  let ?c2 = "fetchSettled ?c1 t1 k (Rejected e)"
  have c1: "?c1 = c\<lparr>nextCallId := Suc (nextCallId c),
             lock := (lock c)\<lparr>activeTasks := activeTasks (lock c) @ [?t1],
                      nextTaskId := Suc (nextTaskId (lock c))\<rparr>,
             fetchLog := fetchLog c @ [k]\<rparr>"
    using miss idle by (rule getOrFetch_register)
  have a: "getCurrentExecution (lock ?c1) k = Some ?t1"
    using getCurrentExecution_registered [OF idle] by (simp add: c1)
  show "settled ?c2 (nextCallId c) = Some (Rejected e)"
    by (simp add: fetchSettled_settled [OF a])
  show st: "fifoCache ?c2 = fifoCache c"
    by (simp add: fetchSettled_Rejected_store getOrFetch_fifoCache)
  show "writeLog ?c2 = writeLog c"
    by (simp add: fetchSettled_Rejected_store getOrFetch_writeLog)
  show "size_cache ?c2 = size_cache c"
    by (simp add: size_cache_def st)
  show i2: "getCurrentExecution (lock ?c2) k = None"
    by (rule fetchSettled_not_active)
  have l2: "fetchLog ?c2 = fetchLog c @ [k]"
    by (simp add: fetchSettled_fetchLog c1)
  show "fetchLog (getOrFetch ?c2 t2 k) = fetchLog c @ [k, k]" if "\<not> truthy (cachedValue c t2 k)"
  proof -
    have "\<not> truthy (cachedValue ?c2 t2 k)"
      using that by (simp add: cachedValue_cong [OF st])
    then show ?thesis
      by (simp add: getOrFetch_register [OF _ i2] l2)
  qed
  show "\<not> fst (has ?c2 t1 k)" if "fst (FIFOCache_get (fifoCache c) t0 k) = None" "t0 \<le> t1"
    using expired_stays_absent [OF that]
    by (cases "FIFOCache_has (fifoCache c) t1 k") (simp add: has_def st)
qed

section \<open>Graceful drain\<close>

lemma step_lock_cases:
  obtains (same) "lock (step c ev) = lock c"
  | (join) k n where "lock (step c ev) = awaitExecution (lock c) k (Joiner n)"
  | (register) k n where "getCurrentExecution (lock c) k = None"
      "lock (step c ev) =
         (lock c)\<lparr>activeTasks := activeTasks (lock c) @
                      [\<lparr>taskId = nextTaskId (lock c), taskKey = k, awaitedBy = [Registrant n]\<rparr>],
                   nextTaskId := Suc (nextTaskId (lock c))\<rparr>"
  | (settle) k t out now where "ev = FetchSettled k out now"
      "getCurrentExecution (lock c) k = Some t"
      "lock (step c ev) =
         (lock c)\<lparr>activeTasks := filter (\<lambda>x. taskKey x \<noteq> k) (activeTasks (lock c)),
                   drains := map (filter (\<lambda>i. i \<noteq> taskId t)) (drains (lock c))\<rparr>"
  | (wait) "lock (step c ev) = waitForAllExistingTasksToComplete (lock c)"
proof (cases ev)
  case (CallGetOrFetch k now)
  show ?thesis
  proof (cases "truthy (cachedValue c now k)")
    case True
    then show ?thesis
      using CallGetOrFetch same by (simp add: getOrFetch_hit)
  next
    case False
    show ?thesis
    proof (cases "getCurrentExecution (lock c) k")
      case None
      then show ?thesis
        using CallGetOrFetch register [of k "nextCallId c"]
        by (simp add: getOrFetch_register [OF False None])
    next
      case (Some t)
      then show ?thesis
        using CallGetOrFetch join [of k "nextCallId c"]
        by (simp add: getOrFetch_join [OF False Some])
    qed
  qed
next
  case (FetchSettled k out now)
  show ?thesis
  proof (cases "getCurrentExecution (lock c) k")
    case None
    then show ?thesis
      using FetchSettled same by (simp add: fetchSettled_idle)
  next
    case (Some t)
    then show ?thesis
      using FetchSettled settle [of k out now t] by (simp add: fetchSettled_active [OF Some])
  qed
next
  case (CallHas k now)
  then show ?thesis
    using same by (simp add: has_state)
next
  case (CallDelete k)
  then show ?thesis
    using same by (cases "FIFOCache_delete (fifoCache c) k") (simp add: delete_def)
next
  case CallClear
  then show ?thesis
    using same by (simp add: clear_def)
next
  case CallWaitForActiveFetches
  then show ?thesis
    using wait by (simp add: waitForActiveFetchesToComplete_def)
qed

lemma awaitExecution_idKeys:
  "map (\<lambda>t. (taskId t, taskKey t)) (activeTasks (awaitExecution lk k w)) =
   map (\<lambda>t. (taskId t, taskKey t)) (activeTasks lk)"
  by (simp add: awaitExecution_def comp_def)

lemma awaitExecution_rest [simp]:
  "nextTaskId (awaitExecution lk k w) = nextTaskId lk"
  "drains (awaitExecution lk k w) = drains lk"
  by (simp_all add: awaitExecution_def)

lemma step_nextTaskId: "nextTaskId (lock c) \<le> nextTaskId (lock (step c ev))"
  by (rule step_lock_cases [of c ev]) (simp_all add: waitForAllExistingTasksToComplete_def)

lemma step_idKeys_subset:
  "p \<in> set (activeIdKeys (step c ev)) \<Longrightarrow>
   p \<in> set (activeIdKeys c) \<or> fst p = nextTaskId (lock c)"
  by (rule step_lock_cases [of c ev])
     (auto simp add: activeIdKeys_def awaitExecution_idKeys waitForAllExistingTasksToComplete_def)

lemma step_idKeys_kept:
  "p \<in> set (activeIdKeys c) \<Longrightarrow> \<not> settles (snd p) ev \<Longrightarrow> p \<in> set (activeIdKeys (step c ev))"
  by (rule step_lock_cases [of c ev])
     (auto simp add: activeIdKeys_def awaitExecution_idKeys waitForAllExistingTasksToComplete_def)

lemma step_idKeys_settled:
  "settles k ev \<Longrightarrow> (i, k) \<notin> set (activeIdKeys (step c ev))"
proof (cases ev)
  case (FetchSettled k' out now)
  assume "settles k ev"
  then have k: "k' = k"
    using FetchSettled by simp
  show ?thesis
  proof (cases "getCurrentExecution (lock c) k")
    case None
    then have "k \<notin> taskKey ` set (activeTasks (lock c))"
      by (simp add: getCurrentExecution_def find_None_iff_keys)
    then show ?thesis
      using FetchSettled k None by (auto simp add: fetchSettled_idle activeIdKeys_def)
  next
    case (Some t)
    then show ?thesis
      using FetchSettled k by (auto simp add: fetchSettled_active [OF Some] activeIdKeys_def)
  qed
qed simp_all


lemma activeIds_idKeys: "fst ` set (activeIdKeys c) = taskId ` set (activeTasks (lock c))"
  by (force simp add: activeIdKeys_def)

lemma wellFormed_idKeys:
  assumes "wellFormed c"
  shows "distinct (map fst (activeIdKeys c))"
    and "\<forall>p \<in> set (activeIdKeys c). fst p < nextTaskId (lock c)"
    and "\<forall>d \<in> set (drains (lock c)). set d \<subseteq> fst ` set (activeIdKeys c)"
proof -
  have m: "map fst (activeIdKeys c) = map taskId (activeTasks (lock c))"
    by (simp add: activeIdKeys_def comp_def)
  show "distinct (map fst (activeIdKeys c))"
    using assms by (simp add: m wellFormed_def lockInv_def)
  show "\<forall>p \<in> set (activeIdKeys c). fst p < nextTaskId (lock c)"
    using assms by (auto simp add: activeIdKeys_def wellFormed_def lockInv_def list_all_iff)
  show "\<forall>d \<in> set (drains (lock c)). set d \<subseteq> fst ` set (activeIdKeys c)"
    using assms by (auto simp add: activeIds_idKeys wellFormed_def lockInv_def list_all_iff)
qed

lemma stay_out:
  "i < nextTaskId (lock c) \<Longrightarrow> i \<notin> fst ` set (activeIdKeys c) \<Longrightarrow>
   i \<notin> fst ` set (activeIdKeys (run c evs))"
proof (induction evs arbitrary: c)
  case Nil
  then show ?case by (simp add: run_Nil)
next
  case (Cons ev evs)
  have "i < nextTaskId (lock (step c ev))"
    using Cons.prems(1) step_nextTaskId [of c ev] by simp
  moreover have "i \<notin> fst ` set (activeIdKeys (step c ev))"
    using Cons.prems step_idKeys_subset [of _ c ev] by force
  ultimately show ?case
    using Cons.IH by (simp add: run_Cons)
qed

lemma active_until_settled:
  assumes "wellFormed c" and "(i, k) \<in> set (activeIdKeys c)"
  shows "i \<in> fst ` set (activeIdKeys (run c evs)) \<longleftrightarrow> \<not> list_ex (settles k) evs"
  using assms
proof (induction evs arbitrary: c)
  case Nil
  then show ?case by (force simp add: run_Nil)
next
  case (Cons ev evs)
  have bound: "i < nextTaskId (lock c)"
    using wellFormed_idKeys(2) [OF Cons.prems(1)] Cons.prems(2) by force
  show ?case
  proof (cases "settles k ev")
    case True
    have "i \<notin> fst ` set (activeIdKeys (step c ev))"
    proof
      assume "i \<in> fst ` set (activeIdKeys (step c ev))"
      then obtain k' where k': "(i, k') \<in> set (activeIdKeys (step c ev))"
        by force
      then have "(i, k') \<in> set (activeIdKeys c)"
        using step_idKeys_subset [OF k'] bound by simp
      then have "k' = k"
        using wellFormed_idKeys(1) [OF Cons.prems(1)] Cons.prems(2)
        by (meson eq_key_imp_eq_value)
      then show False
        using k' step_idKeys_settled [OF True] by simp
    qed
    moreover have "i < nextTaskId (lock (step c ev))"
      using bound step_nextTaskId [of c ev] by simp
    ultimately have "i \<notin> fst ` set (activeIdKeys (run (step c ev) evs))"
      using stay_out by blast
    then show ?thesis
      using True by (simp add: run_Cons)
  next
    case False
    have "(i, k) \<in> set (activeIdKeys (step c ev))"
      using step_idKeys_kept [OF Cons.prems(2)] False by simp
    then show ?thesis
      using Cons.IH [OF wellFormed_step [OF Cons.prems(1)]] False by (simp add: run_Cons)
  qed
qed

lemma step_drain:
  assumes wf: "wellFormed c" and d: "d < length (drains (lock c))"
  shows "d < length (drains (lock (step c ev))) \<and>
         drains (lock (step c ev)) ! d =
           filter (\<lambda>i. i \<in> fst ` set (activeIdKeys (step c ev))) (drains (lock c) ! d)"
proof -
  have sub: "set (drains (lock c) ! d) \<subseteq> taskId ` set (activeTasks (lock c))"
    using wellFormed_idKeys(3) [OF wf] d by (simp add: activeIds_idKeys)
  have all: "filter P (drains (lock c) ! d) = drains (lock c) ! d"
    if "\<And>i. i \<in> taskId ` set (activeTasks (lock c)) \<Longrightarrow> P i" for P
    using sub that by (auto simp add: filter_id_conv)
  show ?thesis
  proof (rule step_lock_cases [of c ev])
    assume "lock (step c ev) = lock c"
    then show ?thesis
      using d all by (simp add: activeIds_idKeys)
  next
    fix k n
    assume "lock (step c ev) = awaitExecution (lock c) k (Joiner n)"
    then show ?thesis
      using d all by (simp add: activeIdKeys_def awaitExecution_idKeys image_image)
  next
    fix k n
    assume "lock (step c ev) =
         (lock c)\<lparr>activeTasks := activeTasks (lock c) @
                      [\<lparr>taskId = nextTaskId (lock c), taskKey = k, awaitedBy = [Registrant n]\<rparr>],
                   nextTaskId := Suc (nextTaskId (lock c))\<rparr>"
    then show ?thesis
      using d all by (simp add: activeIds_idKeys)
  next
    fix k t out now
    assume act: "getCurrentExecution (lock c) k = Some t"
      and l: "lock (step c ev) =
         (lock c)\<lparr>activeTasks := filter (\<lambda>x. taskKey x \<noteq> k) (activeTasks (lock c)),
                   drains := map (filter (\<lambda>i. i \<noteq> taskId t)) (drains (lock c))\<rparr>"
    have t: "t \<in> set (activeTasks (lock c))" "taskKey t = k"
      using act by (auto simp add: getCurrentExecution_def find_Some_iff)
    have dk: "distinct (map taskKey (activeTasks (lock c)))"
      and di: "distinct (map taskId (activeTasks (lock c)))"
      using wf by (simp_all add: wellFormed_def lockInv_def)
    have eq: "(i \<noteq> taskId t) = (i \<in> taskId ` set (filter (\<lambda>x. taskKey x \<noteq> k) (activeTasks (lock c))))"
      if mem: "i \<in> set (drains (lock c) ! d)" for i
    proof -
      obtain x where x: "x \<in> set (activeTasks (lock c))" "i = taskId x"
        using sub mem by auto
      have inj: "taskId y = taskId z \<longleftrightarrow> y = z"
        if "y \<in> set (activeTasks (lock c))" "z \<in> set (activeTasks (lock c))" for y z
        using di that by (auto simp add: distinct_map inj_on_def)
      have key: "taskKey y = k \<longleftrightarrow> y = t" if "y \<in> set (activeTasks (lock c))" for y
        using dk that t by (auto simp add: distinct_map inj_on_def)
      show ?thesis
      proof
        assume "i \<noteq> taskId t"
        then have "x \<noteq> t"
          using x(2) by auto
        then have "taskKey x \<noteq> k"
          using key [OF x(1)] by simp
        then show "i \<in> taskId ` set (filter (\<lambda>x. taskKey x \<noteq> k) (activeTasks (lock c)))"
          using x by auto
      next
        assume "i \<in> taskId ` set (filter (\<lambda>x. taskKey x \<noteq> k) (activeTasks (lock c)))"
        then obtain y where y: "y \<in> set (activeTasks (lock c))" "taskKey y \<noteq> k" "taskId y = i"
          by auto
        then have "y = x"
          using inj [OF y(1) x(1)] x(2) by simp
        then have "x \<noteq> t"
          using y(2) t(2) by auto
        then show "i \<noteq> taskId t"
          using inj [OF x(1) t(1)] x(2) by simp
      qed
    qed
    have "filter (\<lambda>i. i \<noteq> taskId t) (drains (lock c) ! d) =
          filter (\<lambda>i. i \<in> taskId ` set (filter (\<lambda>x. taskKey x \<noteq> k) (activeTasks (lock c))))
            (drains (lock c) ! d)"
      by (rule filter_cong [OF refl]) (rule eq)
    then show ?thesis
      using d by (simp add: l activeIds_idKeys)
  next
    assume "lock (step c ev) = waitForAllExistingTasksToComplete (lock c)"
    then show ?thesis
      using d all
      by (simp add: activeIds_idKeys waitForAllExistingTasksToComplete_def nth_append)
  qed
qed

lemma run_drain:
  assumes "wellFormed c" and "d < length (drains (lock c))"
  shows "d < length (drains (lock (run c evs))) \<and>
         drains (lock (run c evs)) ! d =
           filter (\<lambda>i. i \<in> fst ` set (activeIdKeys (run c evs))) (drains (lock c) ! d)"
  using assms
proof (induction evs arbitrary: c)
  case Nil
  have "set (drains (lock c) ! d) \<subseteq> fst ` set (activeIdKeys c)"
    using wellFormed_idKeys(3) [OF Nil(1)] Nil(2) by simp
  then have "filter (\<lambda>i. i \<in> fst ` set (activeIdKeys c)) (drains (lock c) ! d) = drains (lock c) ! d"
    by (auto simp add: filter_id_conv)
  then show ?case
    using Nil(2) by (simp add: run_Nil)
next
  case (Cons ev evs)
  let ?c1 = "step c ev"
  note s = step_drain [OF Cons.prems, of ev]
  have wf1: "wellFormed ?c1"
    using Cons.prems(1) by (rule wellFormed_step)
  note ih = Cons.IH [OF wf1 conjunct1 [OF s]]
  have still: "i \<in> fst ` set (activeIdKeys ?c1)"
    if "i \<in> set (drains (lock c) ! d)" "i \<in> fst ` set (activeIdKeys (run ?c1 evs))" for i
  proof (rule ccontr)
    assume out: "i \<notin> fst ` set (activeIdKeys ?c1)"
    have "i \<in> fst ` set (activeIdKeys c)"
      using wellFormed_idKeys(3) [OF Cons.prems(1)] Cons.prems(2) that(1) by auto
    then have "i < nextTaskId (lock c)"
      using wellFormed_idKeys(2) [OF Cons.prems(1)] by auto
    then have "i < nextTaskId (lock ?c1)"
      using step_nextTaskId [of c ev] by simp
    then show False
      using stay_out [OF _ out, of evs] that(2) by simp
  qed
  have "filter (\<lambda>i. i \<in> fst ` set (activeIdKeys (run ?c1 evs)))
          (filter (\<lambda>i. i \<in> fst ` set (activeIdKeys ?c1)) (drains (lock c) ! d)) =
        filter (\<lambda>i. i \<in> fst ` set (activeIdKeys (run ?c1 evs))) (drains (lock c) ! d)"
    unfolding filter_filter by (rule filter_cong [OF refl]) (use still in blast)
  then show ?case
    using ih s by (simp add: run_Cons)
qed


text \<open>
  Claim C7. In a state reached from a new cache, \<^verbatim>\<open>waitForActiveFetchesToComplete\<close> issues a
  drain whose snapshot is the tasks in flight at the call. After any later steps, the
  drain is resolved if the fetch of every key of the snapshot has settled in those steps,
  whatever the outcomes, and is pending otherwise; it is never rejected. Fetches started
  after the call play no part.
\<close>

theorem drain_resolves_when_snapshot_settled:
  assumes new: "AutoFetchFIFOCache_new cap ttl = Inr c0" and reach: "c = run c0 evs"
  shows "drainState (lock (run (waitForActiveFetchesToComplete c) later)) (length (drains (lock c))) =
           (if list_all (\<lambda>t. list_ex (settles (taskKey t)) later) (activeTasks (lock c))
            then DrainResolved else DrainPending) \<and>
         (\<forall>e. drainState (lock (run (waitForActiveFetchesToComplete c) later)) (length (drains (lock c)))
            \<noteq> DrainRejected e)"
proof -
  let ?c' = "waitForActiveFetchesToComplete c"
  let ?d = "length (drains (lock c))"
  let ?fin = "run ?c' later"
  have wf: "wellFormed c"
    using wellFormed_new [OF new] reach by (simp add: wellFormed_run)
  have wf': "wellFormed ?c'"
    using wellFormed_step [OF wf, of CallWaitForActiveFetches] by simp
  have d: "?d < length (drains (lock ?c'))"
    by (simp add: waitForActiveFetchesToComplete_def waitForAllExistingTasksToComplete_def)
  have snap: "drains (lock ?c') ! ?d = map taskId (activeTasks (lock c))"
    by (simp add: waitForActiveFetchesToComplete_def waitForAllExistingTasksToComplete_def)
  have keys: "activeIdKeys ?c' = activeIdKeys c"
    by (simp add: activeIdKeys_def waitForActiveFetchesToComplete_def
        waitForAllExistingTasksToComplete_def)
  note r = run_drain [OF wf' d, of later]
  have gone: "taskId t \<in> fst ` set (activeIdKeys ?fin) \<longleftrightarrow> \<not> list_ex (settles (taskKey t)) later"
    if "t \<in> set (activeTasks (lock c))" for t
  proof -
    have "(taskId t, taskKey t) \<in> set (activeIdKeys c)"
      using that by (simp add: activeIdKeys_def)
    then have "(taskId t, taskKey t) \<in> set (activeIdKeys ?c')"
      by (simp only: keys)
    then show ?thesis
      using active_until_settled [OF wf'] by blast
  qed
  have "drains (lock ?fin) ! ?d = [] \<longleftrightarrow>
        list_all (\<lambda>t. list_ex (settles (taskKey t)) later) (activeTasks (lock c))"
    using r gone by (auto simp add: snap filter_empty_conv list_all_iff)
  then have "drainState (lock ?fin) ?d =
      (if list_all (\<lambda>t. list_ex (settles (taskKey t)) later) (activeTasks (lock c))
       then DrainResolved else DrainPending)"
    using r by (simp add: drainState_def)
  then show ?thesis
    by simp
qed

theorem drain_resolves_when_snapshot_settled_witness:
  "AutoFetchFIFOCache_new 2 1000 = Inr exampleCache \<and>
   twoFetchesCache = run exampleCache [CallGetOrFetch ''a'' 0, CallGetOrFetch ''b'' 0] \<and>
   map taskKey (activeTasks (lock twoFetchesCache)) = [''a'', ''b''] \<and>
   drainState (lock (run (waitForActiveFetchesToComplete twoFetchesCache)
       [CallGetOrFetch ''c'' 1, FetchSettled ''a'' (Rejected ''boom'') 2])) 0 = DrainPending \<and>
   drainState (lock (run (waitForActiveFetchesToComplete twoFetchesCache)
       [CallGetOrFetch ''c'' 1, FetchSettled ''a'' (Rejected ''boom'') 2,
        FetchSettled ''b'' (Resolved (JNum 1)) 3])) 0 = DrainResolved"
proof -
  have b: "twoFetchesCache = run exampleCache [CallGetOrFetch ''a'' 0, CallGetOrFetch ''b'' 0]"
    by (simp add: twoFetchesCache_def)
  have l: "lock twoFetchesCache =
     \<lparr>activeTasks = [\<lparr>taskId = 0, taskKey = ''a'', awaitedBy = [Registrant 0]\<rparr>,
                      \<lparr>taskId = 1, taskKey = ''b'', awaitedBy = [Registrant 1]\<rparr>],
      nextTaskId = 2, drains = []\<rparr>"
    by (simp add: twoFetchesCache_def eval_defs)
  show ?thesis
    using drain_resolves_when_snapshot_settled [OF exampleCache_new b,
        of "[CallGetOrFetch ''c'' 1, FetchSettled ''a'' (Rejected ''boom'') 2]"]
      drain_resolves_when_snapshot_settled [OF exampleCache_new b,
        of "[CallGetOrFetch ''c'' 1, FetchSettled ''a'' (Rejected ''boom'') 2,
             FetchSettled ''b'' (Resolved (JNum 1)) 3]"]
      exampleCache_new b
    by (simp add: l)
qed

section \<open>FIFO eviction\<close>

lemma insertions_append: "insertions (xs @ ys) = insertions xs @ insertions ys"
  by (induction xs) simp_all

lemma FIFOCache_set_params [simp]:
  "capacity (FIFOCache_set s now k v) = capacity s"
  "ttlMs (FIFOCache_set s now k v) = ttlMs s"
  by (simp_all add: FIFOCache_set_def Let_def)

lemma resume_params [simp]:
  "capacity (fifoCache (resume now k out c w)) = capacity (fifoCache c)"
  "ttlMs (fifoCache (resume now k out c w)) = ttlMs (fifoCache c)"
  by (cases "(now, k, out, c, w)" rule: resume.cases; simp)+

lemma foldl_resume_params [simp]:
  "capacity (fifoCache (foldl (resume now k out) c ws)) = capacity (fifoCache c)"
  "ttlMs (fifoCache (foldl (resume now k out) c ws)) = ttlMs (fifoCache c)"
  by (induction ws arbitrary: c) simp_all

lemma fetchSettled_params [simp]:
  "capacity (fifoCache (fetchSettled c now k out)) = capacity (fifoCache c)"
  "ttlMs (fifoCache (fetchSettled c now k out)) = ttlMs (fifoCache c)"
  by (cases "getCurrentExecution (lock c) k"; simp add: fetchSettled_idle fetchSettled_active)+

lemma getOrFetch_params [simp]:
  "capacity (fifoCache (getOrFetch c now k)) = capacity (fifoCache c)"
  "ttlMs (fifoCache (getOrFetch c now k)) = ttlMs (fifoCache c)"
  by (simp_all add: getOrFetch_fifoCache)

lemma step_params [simp]:
  "capacity (fifoCache (step c ev)) = capacity (fifoCache c)"
  "ttlMs (fifoCache (step c ev)) = ttlMs (fifoCache c)"
proof -
  have d: "capacity (snd (FIFOCache_delete s k)) = capacity s \<and> ttlMs (snd (FIFOCache_delete s k)) = ttlMs s" for s k
    by (simp add: FIFOCache_delete_def split: option.splits)
  have "capacity (fifoCache (step c ev)) = capacity (fifoCache c) \<and>
        ttlMs (fifoCache (step c ev)) = ttlMs (fifoCache c)"
  proof (cases ev)
    case (CallDelete k)
    then show ?thesis
      using d [of "fifoCache c" k]
      by (cases "FIFOCache_delete (fifoCache c) k") (simp add: delete_def)
  qed (simp_all add: getOrFetch_fifoCache has_state clear_def FIFOCache_clear_def
      waitForActiveFetchesToComplete_def)
  then show "capacity (fifoCache (step c ev)) = capacity (fifoCache c)"
    and "ttlMs (fifoCache (step c ev)) = ttlMs (fifoCache c)"
    by simp_all
qed

lemma run_params [simp]:
  "capacity (fifoCache (run c evs)) = capacity (fifoCache c)"
  "ttlMs (fifoCache (run c evs)) = ttlMs (fifoCache c)"
  by (induction evs arbitrary: c; simp add: run_Nil run_Cons)+

lemma cachedValue_absent:
  "k \<notin> set (storedKeys c) \<Longrightarrow> cachedValue c now k = JUndefined"
  using lookup_None_iff [of "fifoCache c" k]
  by (simp add: cachedValue_def FIFOCache_get_def storedKeys_def)

lemma getOrFetch_miss_active:
  assumes "\<not> truthy (cachedValue c now k)"
  shows "\<exists>t. getCurrentExecution (lock (getOrFetch c now k)) k = Some t"
proof (cases "getCurrentExecution (lock c) k")
  case None
  show ?thesis
    using getCurrentExecution_registered [OF None]
    by (simp add: getOrFetch_register [OF assms None])
next
  case (Some t)
  then show ?thesis
    by (simp add: getOrFetch_join [OF assms Some] getCurrentExecution_awaitExecution)
qed

lemma reads_keep_active:
  assumes "list_all isRead rs" and "getCurrentExecution (lock c) k = Some t"
  shows "\<exists>t'. getCurrentExecution (lock (run c rs)) k = Some t'"
  using assms
proof (induction rs arbitrary: c t)
  case Nil
  then show ?case by (simp add: run_Nil)
next
  case (Cons ev rs)
  have "t \<in> set (activeTasks (lock c))" "taskKey t = k"
    using Cons.prems(2) by (auto simp add: getCurrentExecution_def find_Some_iff)
  then have "(taskId t, k) \<in> set (activeIdKeys c)"
    by (auto simp add: activeIdKeys_def)
  moreover have "\<not> settles k ev"
    using Cons.prems(1) by (cases ev) simp_all
  ultimately have "(taskId t, k) \<in> set (activeIdKeys (step c ev))"
    using step_idKeys_kept [of "(taskId t, k)" c ev] by simp
  then have "k \<in> taskKey ` set (activeTasks (lock (step c ev)))"
    by (force simp add: activeIdKeys_def)
  then obtain t1 where "getCurrentExecution (lock (step c ev)) k = Some t1"
    using find_None_iff_keys [of taskKey k "activeTasks (lock (step c ev))"]
    by (auto simp add: getCurrentExecution_def)
  then show ?case
    using Cons.IH [of "step c ev" t1] Cons.prems(1) by (simp add: run_Cons)
qed

lemma fetch_resolves_absent_key:
  assumes wf: "wellFormed c" and absent: "k \<notin> set (storedKeys c)"
    and reads: "list_all isRead rs"
  shows "fifoCache (fetchSettled (run (getOrFetch c t k) rs) t' k (Resolved v)) =
           FIFOCache_set (fifoCache c) t' k v"
proof -
  let ?c0 = "getOrFetch c t k"
  let ?c1 = "run ?c0 rs"
  have miss: "\<not> truthy (cachedValue c t k)"
    using cachedValue_absent [OF absent] by simp
  obtain t0 where "getCurrentExecution (lock ?c0) k = Some t0"
    using getOrFetch_miss_active [OF miss] by blast
  then obtain t1 where act: "getCurrentExecution (lock ?c1) k = Some t1"
    using reads_keep_active [OF reads] by blast
  have "wellFormed ?c1"
    using wf by (simp add: wellFormed_run wellFormed_getOrFetch)
  moreover have "t1 \<in> set (activeTasks (lock ?c1))"
    using act by (auto simp add: getCurrentExecution_def find_Some_iff)
  ultimately have "registrantThenJoiners (awaitedBy t1)"
    by (simp add: wellFormed_def lockInv_def list_all_iff)
  then obtain r ws where ws: "awaitedBy t1 = Registrant r # ws" "list_all isJoiner ws"
    using registrantThenJoiners_shape by blast
  have "fifoCache ?c1 = fifoCache c"
    using reads by (simp add: run_reads_fifoCache getOrFetch_fifoCache)
  then show ?thesis
    using fetchSettled_Resolved_shape(2) [OF act ws] by simp
qed

lemma set_absent_with_room:
  assumes "k \<notin> entryKey ` set (entries s)" and "length (entries s) < capacity s"
  shows "entries (FIFOCache_set s now k v) =
           entries s @ [\<lparr>entryKey = k, entryValue = v, insertedAt = now\<rparr>]"
  using assms lookup_None_iff [of s k] by (simp add: FIFOCache_set_def Let_def)

lemma set_absent_when_full:
  assumes "k \<notin> entryKey ` set (entries s)" and "length (entries s) = capacity s"
  shows "entries (FIFOCache_set s now k v) =
           tl (entries s) @ [\<lparr>entryKey = k, entryValue = v, insertedAt = now\<rparr>]"
  using assms lookup_None_iff [of s k] by (simp add: FIFOCache_set_def Let_def)

lemma insertions_with_room:
  assumes "wellFormed c"
    and "distinct (map insKey ins)"
    and "set (map insKey ins) \<inter> set (storedKeys c) = {}"
    and "\<forall>i \<in> set ins. list_all isRead (readsDuring i) \<and> list_all isRead (readsAfter i)"
    and "length (entries (fifoCache c)) + length ins \<le> capacity (fifoCache c)"
  shows "entries (fifoCache (run c (insertions ins))) =
           entries (fifoCache c) @ map insertedEntry ins"
  using assms
proof (induction ins arbitrary: c)
  case Nil
  then show ?case by (simp add: run_Nil)
next
  case (Cons i ins)
  let ?c2 = "fetchSettled (run (getOrFetch c (callTime i) (insKey i)) (readsDuring i))
               (settleTime i) (insKey i) (Resolved (insValue i))"
  let ?c3 = "run ?c2 (readsAfter i)"
  have absent: "insKey i \<notin> set (storedKeys c)"
    using Cons.prems(3) by auto
  have during: "list_all isRead (readsDuring i)"
    using Cons.prems(4) by simp
  have st2: "fifoCache ?c2 = FIFOCache_set (fifoCache c) (settleTime i) (insKey i) (insValue i)"
    using Cons.prems(1) absent during by (rule fetch_resolves_absent_key)
  have e2: "entries (fifoCache ?c2) = entries (fifoCache c) @ [insertedEntry i]"
    using absent Cons.prems(5)
    by (simp add: st2 set_absent_with_room storedKeys_def insertedEntry_def)
  have st3: "fifoCache ?c3 = fifoCache ?c2"
    using Cons.prems(4) by (simp add: run_reads_fifoCache)
  have wf3: "wellFormed ?c3"
    using Cons.prems(1) by (simp add: wellFormed_run wellFormed_fetchSettled wellFormed_getOrFetch)
  have keys3: "storedKeys ?c3 = storedKeys c @ [insKey i]"
    by (simp add: storedKeys_def st3 e2 insertedEntry_def)
  have d: "distinct (map insKey ins)"
    using Cons.prems(2) by simp
  have f: "set (map insKey ins) \<inter> set (storedKeys ?c3) = {}"
    using Cons.prems(2,3) by (auto simp add: keys3)
  have r: "\<forall>i \<in> set ins. list_all isRead (readsDuring i) \<and> list_all isRead (readsAfter i)"
    using Cons.prems(4) by simp
  have room: "length (entries (fifoCache ?c3)) + length ins \<le> capacity (fifoCache ?c3)"
    using Cons.prems(5) by (simp add: st3 e2)
  have "run c (insertions (i # ins)) = run ?c3 (insertions ins)"
    by (simp add: run_Cons run_append)
  then show ?case
    using Cons.IH [OF wf3 d f r room] by (simp add: st3 e2)
qed


lemma new_cache_fields:
  assumes "AutoFetchFIFOCache_new C ttl = Inr c0"
  shows "entries (fifoCache c0) = []" and "capacity (fifoCache c0) = C"
    and "ttlMs (fifoCache c0) = ttl" and "1 \<le> C"
  using assms
  by (auto simp add: AutoFetchFIFOCache_new_def FIFOCache_new_def split: if_splits)

lemma find_inserted_entry:
  "distinct (map insKey xs) \<Longrightarrow> i \<in> set xs \<Longrightarrow>
   find (\<lambda>e. entryKey e = insKey i) (map insertedEntry xs) = Some (insertedEntry i)"
  by (induction xs) (auto simp add: insertedEntry_def)

lemma has_by_lookup:
  "fst (has c now k) =
     (case lookup (fifoCache c) k of
        None \<Rightarrow> False
      | Some e \<Rightarrow> now < insertedAt e + ttlMs (fifoCache c))"
  by (cases "FIFOCache_has (fifoCache c) now k")
     (auto simp add: has_def FIFOCache_has_def split: option.splits)

text \<open>
  What holds when no call made between the insertions has its own fetch resolved. A new
  cache of capacity \<open>C\<close> receives \<open>C + 1\<close> insertions of distinct keys, each a call of
  \<^verbatim>\<open>getOrFetch\<close> whose fetch resolves, with any \<^verbatim>\<open>has\<close> calls and \<^verbatim>\<open>getOrFetch\<close> calls, up to
  their return or suspension, before, during, between and after them. Then the store
  holds exactly the entries of the last \<open>C\<close> insertions, in insertion order: the first
  key is absent, and every other key is stored and present until its entry expires.
\<close>

lemma fifo_eviction_without_refetch:
  assumes new: "AutoFetchFIFOCache_new C ttl = Inr c0"
    and reads0: "list_all isRead reads0"
    and dis: "distinct (map insKey ins)"
    and len: "length ins = C + 1"
    and reads: "\<forall>i \<in> set ins. list_all isRead (readsDuring i) \<and> list_all isRead (readsAfter i)"
  shows "entries (fifoCache (run c0 (reads0 @ insertions ins))) = map insertedEntry (tl ins) \<and>
         storedKeys (run c0 (reads0 @ insertions ins)) = tl (map insKey ins) \<and>
         size_cache (run c0 (reads0 @ insertions ins)) = C \<and>
         (\<forall>now. \<not> fst (has (run c0 (reads0 @ insertions ins)) now (insKey (hd ins)))) \<and>
         (\<forall>i \<in> set (tl ins). \<forall>now.
            fst (has (run c0 (reads0 @ insertions ins)) now (insKey i)) \<longleftrightarrow> now < settleTime i + ttl)"
proof -
  let ?c1 = "run c0 reads0"
  note nf = new_cache_fields [OF new]
  obtain xs x where ins: "ins = xs @ [x]"
    using len by (cases ins rule: rev_cases) simp_all
  have lxs: "length xs = C"
    using len ins by simp
  have xs_ne: "xs \<noteq> []"
    using lxs nf(4) by auto
  let ?c2 = "run ?c1 (insertions xs)"
  let ?c3 = "fetchSettled (run (getOrFetch ?c2 (callTime x) (insKey x)) (readsDuring x))
               (settleTime x) (insKey x) (Resolved (insValue x))"
  let ?c4 = "run ?c3 (readsAfter x)"
  have st1: "fifoCache ?c1 = fifoCache c0"
    using reads0 by (rule run_reads_fifoCache)
  have wf1: "wellFormed ?c1"
    using wellFormed_new [OF new] by (rule wellFormed_run)
  have e2: "entries (fifoCache ?c2) = map insertedEntry xs"
  proof -
    have "distinct (map insKey xs)"
      using dis ins by simp
    moreover have "set (map insKey xs) \<inter> set (storedKeys ?c1) = {}"
      by (simp add: storedKeys_def st1 nf(1))
    moreover have "\<forall>i \<in> set xs. list_all isRead (readsDuring i) \<and> list_all isRead (readsAfter i)"
      using reads ins by simp
    moreover have "length (entries (fifoCache ?c1)) + length xs \<le> capacity (fifoCache ?c1)"
      by (simp add: st1 nf lxs)
    ultimately show ?thesis
      using insertions_with_room [OF wf1, of xs] by (simp add: st1 nf(1))
  qed
  have wf2: "wellFormed ?c2"
    using wf1 by (rule wellFormed_run)
  have k2: "storedKeys ?c2 = map insKey xs"
    by (simp add: storedKeys_def e2 insertedEntry_def comp_def)
  have absent: "insKey x \<notin> set (storedKeys ?c2)"
    using dis ins by (simp add: k2)
  have during: "list_all isRead (readsDuring x)"
    using reads ins by simp
  have st3: "fifoCache ?c3 = FIFOCache_set (fifoCache ?c2) (settleTime x) (insKey x) (insValue x)"
    using wf2 absent during by (rule fetch_resolves_absent_key)
  have full: "length (entries (fifoCache ?c2)) = capacity (fifoCache ?c2)"
    by (simp add: e2 lxs nf(2))
  have absent': "insKey x \<notin> entryKey ` set (entries (fifoCache ?c2))"
    using absent by (simp add: storedKeys_def)
  have e3: "entries (fifoCache ?c3) = tl (map insertedEntry xs) @ [insertedEntry x]"
    using set_absent_when_full [OF absent' full] by (simp add: st3 e2 insertedEntry_def)
  have st4: "fifoCache ?c4 = fifoCache ?c3"
    using reads ins by (simp add: run_reads_fifoCache)
  have r: "run c0 (reads0 @ insertions ins) = ?c4"
    by (simp add: ins insertions_append run_append run_Cons)
  have e4: "entries (fifoCache ?c4) = map insertedEntry (tl ins)"
    using xs_ne by (simp add: st4 e3 ins map_tl)
  have ttl4: "ttlMs (fifoCache ?c4) = ttl"
    by (simp add: nf(3) getOrFetch_fifoCache)
  have k4: "storedKeys ?c4 = tl (map insKey ins)"
    by (simp add: storedKeys_def e4 insertedEntry_def comp_def map_tl)
  have size4: "size_cache ?c4 = C"
    using len by (simp add: size_cache_def FIFOCache_size_def e4)
  have d_tl: "distinct (map insKey (tl ins))"
    using dis by (simp add: distinct_tl map_tl)
  have oldest: "\<not> fst (has ?c4 now (insKey (hd ins)))" for now
  proof -
    have "ins = hd ins # tl ins"
      using ins by (cases ins) simp_all
    then have "insKey (hd ins) \<notin> set (map insKey (tl ins))"
      using dis by (metis distinct.simps(2) list.simps(9))
    then have "insKey (hd ins) \<notin> set (map entryKey (entries (fifoCache ?c4)))"
      by (simp add: e4 insertedEntry_def comp_def)
    then have "lookup (fifoCache ?c4) (insKey (hd ins)) = None"
      by (simp add: lookup_None_iff)
    then show ?thesis
      by (simp add: has_by_lookup)
  qed
  have others: "fst (has ?c4 now (insKey i)) \<longleftrightarrow> now < settleTime i + ttl"
    if "i \<in> set (tl ins)" for i now
  proof -
    have "lookup (fifoCache ?c4) (insKey i) = Some (insertedEntry i)"
      using find_inserted_entry [OF d_tl that] by (simp add: lookup_def e4)
    then show ?thesis
      by (simp add: has_by_lookup nf(3) insertedEntry_def)
  qed
  show ?thesis
    unfolding r using e4 k4 size4 oldest others by blast
qed


lemma fifo_eviction_without_refetch_example:
  "AutoFetchFIFOCache_new 2 1000 = Inr exampleCache \<and>
   list_all isRead [CallHas ''a'' 0] \<and>
   distinct (map insKey exampleInsertions) \<and>
   length exampleInsertions = 2 + 1 \<and>
   list_all (\<lambda>i. list_all isRead (readsDuring i) \<and> list_all isRead (readsAfter i)) exampleInsertions \<and>
   storedKeys (run exampleCache ([CallHas ''a'' 0] @ insertions exampleInsertions)) = [''b'', ''c''] \<and>
   size_cache (run exampleCache ([CallHas ''a'' 0] @ insertions exampleInsertions)) = 2 \<and>
   \<not> fst (has (run exampleCache ([CallHas ''a'' 0] @ insertions exampleInsertions)) 10 ''a'') \<and>
   fst (has (run exampleCache ([CallHas ''a'' 0] @ insertions exampleInsertions)) 10 ''b'') \<and>
   fst (has (run exampleCache ([CallHas ''a'' 0] @ insertions exampleInsertions)) 10 ''c'')"
proof -
  have r: "list_all isRead [CallHas ''a'' 0]"
    by simp
  have d: "distinct (map insKey exampleInsertions)"
    by (simp add: exampleInsertions_def)
  have l: "length exampleInsertions = 2 + 1"
    by (simp add: exampleInsertions_def)
  have a: "\<forall>i \<in> set exampleInsertions. list_all isRead (readsDuring i) \<and> list_all isRead (readsAfter i)"
    by (simp add: exampleInsertions_def)
  have a': "list_all (\<lambda>i. list_all isRead (readsDuring i) \<and> list_all isRead (readsAfter i)) exampleInsertions"
    using a by (simp add: list_all_iff)
  have h: "insKey (hd exampleInsertions) = ''a''"
    and m: "tl (map insKey exampleInsertions) = [''b'', ''c'']"
    by (simp_all add: exampleInsertions_def)
  note inst = fifo_eviction_without_refetch [OF exampleCache_new r d l a]
  have b: "fst (has (run exampleCache ([CallHas ''a'' 0] @ insertions exampleInsertions)) 10 ''b'')"
    using inst by (simp add: exampleInsertions_def)
  have c: "fst (has (run exampleCache ([CallHas ''a'' 0] @ insertions exampleInsertions)) 10 ''c'')"
    using inst by (simp add: exampleInsertions_def)
  show ?thesis
    using inst exampleCache_new r d l a' b c
    by (simp add: h m)
qed

lemma exampleCache3_new: "AutoFetchFIFOCache_new 3 1000 = Inr exampleCache3"
  by (simp add: AutoFetchFIFOCache_new_def FIFOCache_new_def ZeroOverheadKeyedLock_new_def exampleCache3_def)

lemma threeKeysCache_eval:
  "fifoCache threeKeysCache =
     \<lparr>entries = [\<lparr>entryKey = ''a'', entryValue = JNum 1, insertedAt = 0\<rparr>,
                 \<lparr>entryKey = ''b'', entryValue = JNum 0, insertedAt = 1\<rparr>,
                 \<lparr>entryKey = ''c'', entryValue = JNum 2, insertedAt = 2\<rparr>],
      capacity = 3, ttlMs = 1000\<rparr>"
  "lock threeKeysCache = \<lparr>activeTasks = [], nextTaskId = 3, drains = []\<rparr>"
  "fetchLog threeKeysCache = [''a'', ''b'', ''c'']"
  "nextCallId threeKeysCache = 3"
  by (simp_all add: threeKeysCache_def exampleCache3_def eval_defs)

lemma reReadCache_eval:
  "fifoCache reReadCache =
     \<lparr>entries = [\<lparr>entryKey = ''a'', entryValue = JNum 1, insertedAt = 0\<rparr>,
                 \<lparr>entryKey = ''c'', entryValue = JNum 2, insertedAt = 2\<rparr>,
                 \<lparr>entryKey = ''b'', entryValue = JNum 0, insertedAt = 4\<rparr>],
      capacity = 3, ttlMs = 1000\<rparr>"
  "lock reReadCache = \<lparr>activeTasks = [], nextTaskId = 4, drains = []\<rparr>"
  "fetchLog reReadCache = [''a'', ''b'', ''c'', ''b'']"
  by (simp_all add: reReadCache_def threeKeysCache_eval eval_defs)

lemma fourKeysCache_store:
  "storedKeys fourKeysCache = [''c'', ''b'', ''d'']"
  by (simp add: fourKeysCache_def reReadCache_eval storedKeys_def eval_defs)

lemma fiveKeysCache_store:
  "fifoCache fiveKeysCache =
     \<lparr>entries = [\<lparr>entryKey = ''b'', entryValue = JNum 0, insertedAt = 4\<rparr>,
                 \<lparr>entryKey = ''d'', entryValue = JNum 3, insertedAt = 5\<rparr>,
                 \<lparr>entryKey = ''e'', entryValue = JNum 4, insertedAt = 6\<rparr>],
      capacity = 3, ttlMs = 1000\<rparr>"
  by (simp add: fiveKeysCache_def fourKeysCache_def reReadCache_eval eval_defs)

lemma oldestReadCache_store:
  "fifoCache oldestReadCache =
     \<lparr>entries = [\<lparr>entryKey = ''a'', entryValue = JNum 0, insertedAt = 2\<rparr>,
                 \<lparr>entryKey = ''c'', entryValue = JNum 3, insertedAt = 3\<rparr>],
      capacity = 2, ttlMs = 1000\<rparr>"
  by (simp add: oldestReadCache_def exampleCache_def eval_defs)

text \<open>
  Claim C5. The claim is that after \<open>C + 1\<close> insertions the first key is absent and the
  others are present, however often they were read, and that reads never change the
  eviction order. The documentation of \<^verbatim>\<open>getOrFetch\<close> makes a call for a stored, unexpired
  key a read. The hit check is \<^verbatim>\<open>if (value)\<close>, so a call for a fresh entry whose value is
  falsy fetches again, and when that fetch resolves \<open>set\<close> reinserts the key as the newest.
  With capacity 3 and \<open>a\<close>, \<open>b\<close>, \<open>c\<close> inserted in this order, \<open>b\<close> with the value 0, one call
  for \<open>b\<close> moves \<open>b\<close> behind \<open>c\<close>; after \<open>d\<close> and \<open>e\<close> are inserted, \<open>c\<close> is evicted and \<open>b\<close>,
  inserted before it, is still present. With capacity 2 and \<open>a\<close> inserted with the value
  0, then \<open>b\<close>, one call for \<open>a\<close> and the insertion of \<open>c\<close> leave \<open>a\<close> present and \<open>b\<close> evicted.
\<close>

theorem refetch_of_falsy_entry_changes_eviction_order:
  "storedKeys threeKeysCache = [''a'', ''b'', ''c''] \<and>
   fst (FIFOCache_get (fifoCache threeKeysCache) 3 ''b'') = Some (JNum 0) \<and>
   fetchLog (getOrFetch threeKeysCache 3 ''b'') = fetchLog threeKeysCache @ [''b''] \<and>
   storedKeys reReadCache = [''a'', ''c'', ''b''] \<and>
   storedKeys fourKeysCache = [''c'', ''b'', ''d''] \<and>
   storedKeys fiveKeysCache = [''b'', ''d'', ''e''] \<and>
   fst (has fiveKeysCache 7 ''b'') \<and>
   \<not> fst (has fiveKeysCache 7 ''c'') \<and>
   storedKeys oldestReadCache = [''a'', ''c''] \<and>
   fst (has oldestReadCache 4 ''a'') \<and>
   \<not> fst (has oldestReadCache 4 ''b'')"
  by (simp add: storedKeys_def threeKeysCache_eval reReadCache_eval fourKeysCache_store [unfolded storedKeys_def]
      fiveKeysCache_store oldestReadCache_store eval_defs)

section \<open>Concurrent calls among other steps\<close>

lemma find_tl_distinct:
  "distinct (map f xs) \<Longrightarrow>
   find (\<lambda>e. f e = k) (tl xs) = None \<or> find (\<lambda>e. f e = k) (tl xs) = find (\<lambda>e. f e = k) xs"
  by (cases xs) (auto simp add: find_None_iff_keys)

lemma lookup_after_set_other:
  assumes "storeInv s" and "k' \<noteq> k"
  shows "lookup (FIFOCache_set s now k' v) k = None \<or> lookup (FIFOCache_set s now k' v) k = lookup s k"
proof -
  have d: "distinct (map entryKey (entries s))"
    using assms(1) by (simp add: storeInv_def)
  show ?thesis
    using assms(2) find_tl_distinct [OF d, of k]
    by (auto simp add: FIFOCache_set_def Let_def lookup_def find_append_other find_filter_neq)
qed

lemma lookup_after_delete:
  "lookup (snd (FIFOCache_delete s k')) k = None \<or> lookup (snd (FIFOCache_delete s k')) k = lookup s k"
  by (cases "k' = k")
     (auto simp add: FIFOCache_delete_def lookup_def find_filter_eq find_filter_neq split: option.splits)

lemma foldl_resume_lookup_other:
  assumes "storeInv (fifoCache c)" and "k' \<noteq> k"
  shows "lookup (fifoCache (foldl (resume now k' out) c ws)) k = None \<or>
         lookup (fifoCache (foldl (resume now k' out) c ws)) k = lookup (fifoCache c) k"
  using assms(1)
proof (induction ws arbitrary: c)
  case Nil
  then show ?case by simp
next
  case (Cons w ws)
  let ?c1 = "resume now k' out c w"
  have inv1: "storeInv (fifoCache ?c1)"
    using foldl_resume_storeInv [OF Cons.prems, of now k' out "[w]"] by simp
  have one: "lookup (fifoCache ?c1) k = None \<or> lookup (fifoCache ?c1) k = lookup (fifoCache c) k"
    using lookup_after_set_other [OF Cons.prems assms(2)]
    by (cases "(now, k', out, c, w)" rule: resume.cases) simp_all
  show ?case
    using Cons.IH [OF inv1] one by auto
qed

lemma step_lookup_unsettled:
  assumes wf: "wellFormed c" and ns: "\<not> settles k ev"
  shows "lookup (fifoCache (step c ev)) k = None \<or>
         lookup (fifoCache (step c ev)) k = lookup (fifoCache c) k"
proof (cases ev)
  case (CallGetOrFetch k' now)
  then show ?thesis by (simp add: getOrFetch_fifoCache)
next
  case (FetchSettled k' out now)
  then have neq: "k' \<noteq> k"
    using ns by simp
  show ?thesis
  proof (cases "getCurrentExecution (lock c) k'")
    case None
    then show ?thesis
      using FetchSettled by (simp add: fetchSettled_idle)
  next
    case (Some t)
    let ?c' = "c\<lparr>lock := (lock c)\<lparr>activeTasks := filter (\<lambda>x. taskKey x \<noteq> k') (activeTasks (lock c)),
                            drains := map (filter (\<lambda>i. i \<noteq> taskId t)) (drains (lock c))\<rparr>\<rparr>"
    have "storeInv (fifoCache ?c')"
      using wf by (simp add: wellFormed_def)
    then show ?thesis
      using foldl_resume_lookup_other [of ?c' k' k now out "awaitedBy t"] neq FetchSettled
      by (simp add: fetchSettled_active [OF Some])
  qed
next
  case (CallHas k' now)
  then show ?thesis by (simp add: has_state)
next
  case (CallDelete k')
  then show ?thesis
    using lookup_after_delete [of "fifoCache c" k' k]
    by (cases "FIFOCache_delete (fifoCache c) k'") (simp add: delete_def)
next
  case CallClear
  then show ?thesis by (simp add: clear_def FIFOCache_clear_def lookup_def)
next
  case CallWaitForActiveFetches
  then show ?thesis by (simp add: waitForActiveFetchesToComplete_def)
qed

lemma step_miss_unsettled:
  assumes wf: "wellFormed c" and ns: "\<not> settles k ev" and miss: "\<not> truthy (cachedValue c now k)"
  shows "\<not> truthy (cachedValue (step c ev) now k)"
proof -
  have t: "ttlMs (fifoCache (step c ev)) = ttlMs (fifoCache c)"
    by simp
  show ?thesis
    using step_lookup_unsettled [OF wf ns] miss
    by (auto simp add: cachedValue_def FIFOCache_get_def t split: option.splits if_splits)
qed

lemma callsFor_Cons:
  "callsFor k n (ev # evs) = callsFor k n [ev] @ callsFor k (if isCall ev then Suc n else n) evs"
  by (cases ev) simp_all

lemma step_nextCallId: "nextCallId (step c ev) = (if isCall ev then Suc (nextCallId c) else nextCallId c)"
proof (cases ev)
  case (CallGetOrFetch k now)
  show ?thesis
  proof (cases "truthy (cachedValue c now k)")
    case True
    then show ?thesis
      using CallGetOrFetch by (simp add: getOrFetch_hit)
  next
    case False
    then show ?thesis
      using CallGetOrFetch
      by (cases "getCurrentExecution (lock c) k") (simp_all add: getOrFetch_register getOrFetch_join)
  qed
next
  case (FetchSettled k out now)
  then show ?thesis
    by (cases "getCurrentExecution (lock c) k") (simp_all add: fetchSettled_idle fetchSettled_active)
next
  case (CallHas k now)
  then show ?thesis by (simp add: has_state)
next
  case (CallDelete k)
  then show ?thesis
    by (cases "FIFOCache_delete (fifoCache c) k") (simp add: delete_def)
next
  case CallClear
  then show ?thesis by (simp add: clear_def)
next
  case CallWaitForActiveFetches
  then show ?thesis by (simp add: waitForActiveFetchesToComplete_def)
qed

lemma step_keeps_waiting:
  assumes act: "getCurrentExecution (lock c) k = Some t"
    and ns: "\<not> settles k ev"
    and miss: "\<forall>now. ev = CallGetOrFetch k now \<longrightarrow> \<not> truthy (cachedValue c now k)"
  shows "\<exists>t1. getCurrentExecution (lock (step c ev)) k = Some t1 \<and>
              map callOf (awaitedBy t1) = map callOf (awaitedBy t) @ callsFor k (nextCallId c) [ev] \<and>
              count_list (fetchLog (step c ev)) k = count_list (fetchLog c) k"
proof (cases ev)
  case (CallGetOrFetch k' now)
  show ?thesis
  proof (cases "k' = k")
    case True
    have m: "\<not> truthy (cachedValue c now k)"
      using miss CallGetOrFetch True by simp
    show ?thesis
      using CallGetOrFetch True act getCurrentExecution_key [OF act]
      by (simp add: getOrFetch_join [OF m act] getCurrentExecution_awaitExecution)
  next
    case False
    show ?thesis
    proof (cases "truthy (cachedValue c now k')")
      case True
      then show ?thesis
        using CallGetOrFetch False act by (simp add: getOrFetch_hit)
    next
      case miss': False
      show ?thesis
      proof (cases "getCurrentExecution (lock c) k'")
        case None
        have "getCurrentExecution (lock (getOrFetch c now k')) k = Some t"
          using act False
          by (simp add: getOrFetch_register [OF miss' None] getCurrentExecution_def find_append_other)
        then show ?thesis
          using CallGetOrFetch False by (simp add: getOrFetch_register [OF miss' None])
      next
        case (Some t')
        have "getCurrentExecution (lock (getOrFetch c now k')) k = Some t"
          using act False getCurrentExecution_key [OF act]
          by (simp add: getOrFetch_join [OF miss' Some] getCurrentExecution_awaitExecution)
        then show ?thesis
          using CallGetOrFetch False by (simp add: getOrFetch_join [OF miss' Some])
      qed
    qed
  qed
next
  case (FetchSettled k' out now)
  then have neq: "k' \<noteq> k"
    using ns by simp
  show ?thesis
  proof (cases "getCurrentExecution (lock c) k'")
    case None
    then show ?thesis
      using FetchSettled act by (simp add: fetchSettled_idle)
  next
    case (Some t')
    have "getCurrentExecution (lock (fetchSettled c now k' out)) k = Some t"
      using act neq
      by (simp add: fetchSettled_active [OF Some] getCurrentExecution_def find_filter_neq)
    then show ?thesis
      using FetchSettled by (simp add: fetchSettled_fetchLog)
  qed
next
  case (CallHas k' now)
  then show ?thesis
    using act by (simp add: has_state)
next
  case (CallDelete k')
  then show ?thesis
    using act by (cases "FIFOCache_delete (fifoCache c) k'") (simp add: delete_def)
next
  case CallClear
  then show ?thesis
    using act by (simp add: clear_def)
next
  case CallWaitForActiveFetches
  then show ?thesis
    using act
    by (simp add: waitForActiveFetchesToComplete_def waitForAllExistingTasksToComplete_def
        getCurrentExecution_def)
qed

lemma run_keeps_waiting:
  assumes "wellFormed c"
    and "getCurrentExecution (lock c) k = Some t"
    and "\<not> list_ex (settles k) evs"
    and "\<forall>now. CallGetOrFetch k now \<in> set evs \<longrightarrow> \<not> truthy (cachedValue c now k)"
  shows "\<exists>t2. getCurrentExecution (lock (run c evs)) k = Some t2 \<and>
              map callOf (awaitedBy t2) = map callOf (awaitedBy t) @ callsFor k (nextCallId c) evs \<and>
              count_list (fetchLog (run c evs)) k = count_list (fetchLog c) k"
  using assms
proof (induction evs arbitrary: c t)
  case Nil
  then show ?case by (simp add: run_Nil)
next
  case (Cons ev evs)
  let ?c1 = "step c ev"
  have ns: "\<not> settles k ev" and ns': "\<not> list_ex (settles k) evs"
    using Cons.prems(3) by simp_all
  have m: "\<forall>now. ev = CallGetOrFetch k now \<longrightarrow> \<not> truthy (cachedValue c now k)"
    using Cons.prems(4) by simp
  obtain t1 where t1: "getCurrentExecution (lock ?c1) k = Some t1"
    "map callOf (awaitedBy t1) = map callOf (awaitedBy t) @ callsFor k (nextCallId c) [ev]"
    "count_list (fetchLog ?c1) k = count_list (fetchLog c) k"
    using step_keeps_waiting [OF Cons.prems(2) ns m] by blast
  have wf1: "wellFormed ?c1"
    using Cons.prems(1) by (rule wellFormed_step)
  have m1: "\<forall>now. CallGetOrFetch k now \<in> set evs \<longrightarrow> \<not> truthy (cachedValue ?c1 now k)"
    using Cons.prems(4) step_miss_unsettled [OF Cons.prems(1) ns] by simp
  obtain t2 where t2: "getCurrentExecution (lock (run ?c1 evs)) k = Some t2"
    "map callOf (awaitedBy t2) = map callOf (awaitedBy t1) @ callsFor k (nextCallId ?c1) evs"
    "count_list (fetchLog (run ?c1 evs)) k = count_list (fetchLog ?c1) k"
    using Cons.IH [OF wf1 t1(1) ns' m1] by blast
  have "map callOf (awaitedBy t2) = map callOf (awaitedBy t) @ callsFor k (nextCallId c) (ev # evs)"
    using t1(2) t2(2) callsFor_Cons [of k "nextCallId c" ev evs] by (simp add: step_nextCallId)
  then show ?case
    using t2(1,3) t1(3) by (simp add: run_Cons)
qed


text \<open>
  Claim C1. In a state reached from a new cache, the key \<open>k\<close> has no fetch in flight. A call
  of \<^verbatim>\<open>getOrFetch(k)\<close> is followed by any steps that do not settle the fetch of \<open>k\<close>: more
  calls for \<open>k\<close>, calls and settlements for other keys, \<^verbatim>\<open>has\<close>, \<^verbatim>\<open>delete\<close>, \<^verbatim>\<open>clear\<close>, drains.
  The hit check fails for \<open>k\<close> at the time of each of its calls (the entry is missing or
  expired). Then the fetcher is invoked for \<open>k\<close> exactly once, all the calls for \<open>k\<close> are
  suspended on the one task of \<open>k\<close>, and when the fetch settles with an outcome, a value
  or an error, every one of them settles with that outcome, with no further invocation.
\<close>

theorem concurrent_calls_share_one_fetch:
  assumes new: "AutoFetchFIFOCache_new cap ttl = Inr c0" and reach: "c = run c0 pre"
    and idle: "getCurrentExecution (lock c) k = None"
    and unsettled: "\<not> list_ex (settles k) evs"
    and miss: "\<forall>now. CallGetOrFetch k now \<in> set (CallGetOrFetch k t0 # evs) \<longrightarrow>
                 \<not> truthy (cachedValue c now k)"
  shows "count_list (fetchLog (run c (CallGetOrFetch k t0 # evs))) k = count_list (fetchLog c) k + 1 \<and>
         (\<exists>t. getCurrentExecution (lock (run c (CallGetOrFetch k t0 # evs))) k = Some t \<and>
              map callOf (awaitedBy t) = callsFor k (nextCallId c) (CallGetOrFetch k t0 # evs)) \<and>
         fetchLog (fetchSettled (run c (CallGetOrFetch k t0 # evs)) now k out) =
           fetchLog (run c (CallGetOrFetch k t0 # evs)) \<and>
         (\<forall>cid \<in> set (callsFor k (nextCallId c) (CallGetOrFetch k t0 # evs)).
            settled (fetchSettled (run c (CallGetOrFetch k t0 # evs)) now k out) cid = Some out)"
proof -
  let ?c1 = "getOrFetch c t0 k"
  let ?t1 = "\<lparr>taskId = nextTaskId (lock c), taskKey = k, awaitedBy = [Registrant (nextCallId c)]\<rparr>"
  let ?fin = "run c (CallGetOrFetch k t0 # evs)"
  have wf: "wellFormed c"
    using wellFormed_new [OF new] reach by (simp add: wellFormed_run)
  have miss0: "\<not> truthy (cachedValue c t0 k)"
    using miss by simp
  have c1: "?c1 = c\<lparr>nextCallId := Suc (nextCallId c),
             lock := (lock c)\<lparr>activeTasks := activeTasks (lock c) @ [?t1],
                      nextTaskId := Suc (nextTaskId (lock c))\<rparr>,
             fetchLog := fetchLog c @ [k]\<rparr>"
    using miss0 idle by (rule getOrFetch_register)
  have a: "getCurrentExecution (lock ?c1) k = Some ?t1"
    using getCurrentExecution_registered [OF idle] by (simp add: c1)
  have wf1: "wellFormed ?c1"
    using wf by (rule wellFormed_getOrFetch)
  have m1: "\<forall>now. CallGetOrFetch k now \<in> set evs \<longrightarrow> \<not> truthy (cachedValue ?c1 now k)"
    using miss by (simp add: cachedValue_cong [OF getOrFetch_fifoCache])
  obtain t2 where t2: "getCurrentExecution (lock (run ?c1 evs)) k = Some t2"
    "map callOf (awaitedBy t2) = map callOf (awaitedBy ?t1) @ callsFor k (nextCallId ?c1) evs"
    "count_list (fetchLog (run ?c1 evs)) k = count_list (fetchLog ?c1) k"
    using run_keeps_waiting [OF wf1 a unsettled m1] by blast
  have r: "?fin = run ?c1 evs"
    by (simp add: run_Cons)
  have ids: "map callOf (awaitedBy t2) = callsFor k (nextCallId c) (CallGetOrFetch k t0 # evs)"
    using t2(2) by (simp add: c1)
  have cnt: "count_list (fetchLog ?fin) k = count_list (fetchLog c) k + 1"
    using t2(3) by (simp add: r c1)
  have act: "getCurrentExecution (lock ?fin) k = Some t2"
    using t2(1) by (simp add: r)
  have fin: "settled (fetchSettled ?fin now k out) cid = Some out"
    if "cid \<in> set (callsFor k (nextCallId c) (CallGetOrFetch k t0 # evs))" for cid
  proof -
    have "cid \<in> callOf ` set (awaitedBy t2)"
      using that ids by (metis list.set_map)
    then show ?thesis
      by (simp add: fetchSettled_settled [OF act])
  qed
  show ?thesis
    using cnt act ids fin by (simp only: fetchSettled_fetchLog) blast
qed

theorem concurrent_calls_share_one_fetch_witness:
  "AutoFetchFIFOCache_new 2 1000 = Inr exampleCache \<and>
   exampleCache = run exampleCache [] \<and>
   getCurrentExecution (lock exampleCache) ''x'' = None \<and>
   \<not> list_ex (settles ''x'') (tl interleavedCalls) \<and>
   \<not> truthy (cachedValue exampleCache 0 ''x'') \<and>
   \<not> truthy (cachedValue exampleCache 2 ''x'') \<and>
   \<not> truthy (cachedValue exampleCache 5 ''x'') \<and>
   callsFor ''x'' 0 interleavedCalls = [0, 2, 3] \<and>
   count_list (fetchLog (run exampleCache interleavedCalls)) ''x'' = 1 \<and>
   settled (fetchSettled (run exampleCache interleavedCalls) 6 ''x'' (Rejected ''boom'')) 0 =
     Some (Rejected ''boom'') \<and>
   settled (fetchSettled (run exampleCache interleavedCalls) 6 ''x'' (Rejected ''boom'')) 2 =
     Some (Rejected ''boom'') \<and>
   settled (fetchSettled (run exampleCache interleavedCalls) 6 ''x'' (Rejected ''boom'')) 3 =
     Some (Rejected ''boom'')"
proof -
  have r: "exampleCache = run exampleCache []"
    by (simp add: run_Nil)
  have i: "getCurrentExecution (lock exampleCache) ''x'' = None"
    by (simp add: exampleCache_def getCurrentExecution_def)
  have e: "interleavedCalls = CallGetOrFetch ''x'' 0 # tl interleavedCalls"
    by (simp add: interleavedCalls_def)
  have u: "\<not> list_ex (settles ''x'') (tl interleavedCalls)"
    by (simp add: interleavedCalls_def)
  have v: "cachedValue exampleCache now ''x'' = JUndefined" for now
    by (simp add: exampleCache_def cachedValue_def FIFOCache_get_def lookup_def)
  have m: "\<forall>now. CallGetOrFetch ''x'' now \<in> set (CallGetOrFetch ''x'' 0 # tl interleavedCalls) \<longrightarrow>
             \<not> truthy (cachedValue exampleCache now ''x'')"
    by (simp add: v)
  have ids: "callsFor ''x'' 0 interleavedCalls = [0, 2, 3]"
    by (simp add: interleavedCalls_def)
  have n: "nextCallId exampleCache = 0" "fetchLog exampleCache = []"
    by (simp_all add: exampleCache_def)
  show ?thesis
    using concurrent_calls_share_one_fetch [OF exampleCache_new r i u m, of 6 "Rejected ''boom''"]
      exampleCache_new r i u ids
    by (simp add: e [symmetric] n v)
qed

section \<open>Reads and removals\<close>

lemma FIFOCache_set_size:
  assumes "storeInv s"
  shows "length (entries s) \<le> length (entries (FIFOCache_set s now k v))"
proof (cases "lookup s k")
  case None
  then show ?thesis
    using assms by (cases "entries s") (auto simp add: FIFOCache_set_def Let_def storeInv_def)
next
  case (Some e)
  then have "k \<in> entryKey ` set (entries s)"
    using lookup_None_iff [of s k] by auto
  then have "Suc (length (filter (\<lambda>x. entryKey x \<noteq> k) (entries s))) = length (entries s)"
    using assms by (simp add: storeInv_def length_filter_distinct_key)
  then show ?thesis
    using Some by (simp add: FIFOCache_set_def Let_def)
qed

lemma foldl_resume_size:
  "storeInv (fifoCache c) \<Longrightarrow>
   length (entries (fifoCache c)) \<le> length (entries (fifoCache (foldl (resume now k out) c ws)))"
proof (induction ws arbitrary: c)
  case Nil
  then show ?case by simp
next
  case (Cons w ws)
  have s: "storeInv (fifoCache (resume now k out c w))"
    using foldl_resume_storeInv [OF Cons.prems, of now k out "[w]"] by simp
  have "length (entries (fifoCache c)) \<le> length (entries (fifoCache (resume now k out c w)))"
    using Cons.prems
    by (cases "(now, k, out, c, w)" rule: resume.cases) (simp_all add: FIFOCache_set_size)
  then show ?case
    using Cons.IH [OF s] by simp
qed

lemma size_shrinks_only_by_removal:
  assumes wf: "wellFormed c" and less: "size_cache (step c ev) < size_cache c"
  shows "(\<exists>k. ev = CallDelete k) \<or> ev = CallClear"
proof (cases ev)
  case (CallGetOrFetch k now)
  then show ?thesis
    using less by (simp add: size_cache_def getOrFetch_fifoCache)
next
  case (FetchSettled k out now)
  have "size_cache c \<le> size_cache (fetchSettled c now k out)"
  proof (cases "getCurrentExecution (lock c) k")
    case None
    then show ?thesis by (simp add: fetchSettled_idle)
  next
    case (Some t)
    let ?c' = "c\<lparr>lock := (lock c)\<lparr>activeTasks := filter (\<lambda>x. taskKey x \<noteq> k) (activeTasks (lock c)),
                            drains := map (filter (\<lambda>i. i \<noteq> taskId t)) (drains (lock c))\<rparr>\<rparr>"
    have "storeInv (fifoCache ?c')"
      using wf by (simp add: wellFormed_def)
    then have "length (entries (fifoCache ?c')) \<le>
               length (entries (fifoCache (foldl (resume now k out) ?c' (awaitedBy t))))"
      by (rule foldl_resume_size)
    then show ?thesis
      by (simp add: fetchSettled_active [OF Some] size_cache_def FIFOCache_size_def)
  qed
  then show ?thesis
    using less FetchSettled by simp
next
  case (CallHas k now)
  then show ?thesis
    using less by (simp add: has_state)
next
  case (CallDelete k)
  then show ?thesis by simp
next
  case CallClear
  then show ?thesis by simp
next
  case CallWaitForActiveFetches
  then show ?thesis
    using less by (simp add: size_cache_def waitForActiveFetchesToComplete_def)
qed

lemma entry_leaves_only_by_write_or_removal:
  assumes "k \<in> set (storedKeys c)" and "k \<notin> set (storedKeys (step c ev))"
  shows "ev = CallDelete k \<or> ev = CallClear \<or> (\<exists>k' v now. ev = FetchSettled k' (Resolved v) now)"
proof (cases ev)
  case (CallGetOrFetch k' now)
  then show ?thesis
    using assms by (simp add: storedKeys_def getOrFetch_fifoCache)
next
  case (FetchSettled k' out now)
  show ?thesis
  proof (cases out)
    case (Resolved v)
    then show ?thesis
      using FetchSettled by simp
  next
    case (Rejected e)
    then show ?thesis
      using assms FetchSettled by (simp add: storedKeys_def fetchSettled_Rejected_store)
  qed
next
  case (CallHas k' now)
  then show ?thesis
    using assms by (simp add: has_state)
next
  case (CallDelete k')
  have "k' = k"
  proof (rule ccontr)
    assume "k' \<noteq> k"
    then have "k \<in> entryKey ` set (filter (\<lambda>x. entryKey x \<noteq> k') (entries (fifoCache c)))"
      using assms(1) by (auto simp add: storedKeys_def)
    then have "k \<in> set (storedKeys (snd (delete c k')))"
      using assms(1)
      by (cases "lookup (fifoCache c) k'") (simp_all add: delete_def FIFOCache_delete_def storedKeys_def)
    then show False
      using assms(2) CallDelete by simp
  qed
  then show ?thesis
    using CallDelete by simp
next
  case CallClear
  then show ?thesis by simp
next
  case CallWaitForActiveFetches
  then show ?thesis
    using assms by (simp add: storedKeys_def waitForActiveFetchesToComplete_def)
qed

text \<open>
  Claim C9. Read operations never remove entries. A \<^verbatim>\<open>has\<close> call, the store's \<open>get\<close> and
  a \<^verbatim>\<open>getOrFetch\<close> call up to its suspension leave the store as it was, so any number of
  reads leaves the store and its size unchanged. In particular an expired entry is
  reported absent by \<^verbatim>\<open>has\<close> and \<open>get\<close> after any number of reads, and is still stored and
  still counted by \<^verbatim>\<open>size\<close>. A stored key leaves the store only in a \<^verbatim>\<open>delete\<close> of that key,
  a \<^verbatim>\<open>clear\<close>, or the store write of a resolved fetch (eviction or replacement by
  \<open>set\<close>); and in a state reached from a new cache, \<^verbatim>\<open>size\<close> decreases only in a \<^verbatim>\<open>delete\<close>
  or a \<^verbatim>\<open>clear\<close>.
\<close>

theorem reads_remove_nothing:
  "snd (has c now k) = c \<and>
   snd (FIFOCache_get (fifoCache c) now k) = fifoCache c \<and>
   fifoCache (getOrFetch c now k) = fifoCache c \<and>
   (list_all isRead evs \<longrightarrow>
      fifoCache (run c evs) = fifoCache c \<and> size_cache (run c evs) = size_cache c) \<and>
   (lookup (fifoCache c) k = Some e \<and> insertedAt e + ttlMs (fifoCache c) \<le> now \<and> list_all isRead evs \<longrightarrow>
      \<not> fst (has (run c evs) now k) \<and> fst (FIFOCache_get (fifoCache (run c evs)) now k) = None \<and>
      k \<in> set (storedKeys (run c evs)) \<and> 0 < size_cache (run c evs)) \<and>
   (k \<in> set (storedKeys c) \<and> k \<notin> set (storedKeys (step c ev)) \<longrightarrow>
      ev = CallDelete k \<or> ev = CallClear \<or> (\<exists>k' v t. ev = FetchSettled k' (Resolved v) t)) \<and>
   (AutoFetchFIFOCache_new cap ttl = Inr c0 \<and> c = run c0 pre \<and>
    size_cache (step c ev) < size_cache c \<longrightarrow>
      (\<exists>k'. ev = CallDelete k') \<or> ev = CallClear)"
proof -
  have r: "list_all isRead evs \<Longrightarrow> fifoCache (run c evs) = fifoCache c"
    by (rule run_reads_fifoCache)
  have e: "lookup (fifoCache c) k = Some e \<Longrightarrow> insertedAt e + ttlMs (fifoCache c) \<le> now \<Longrightarrow>
      \<not> fst (has c' now k) \<and> fst (FIFOCache_get (fifoCache c') now k) = None \<and>
      k \<in> set (storedKeys c') \<and> 0 < size_cache c'" if "fifoCache c' = fifoCache c" for c'
    using that lookup_None_iff [of "fifoCache c" k]
    by (auto simp add: has_def FIFOCache_has_def FIFOCache_get_def storedKeys_def size_cache_def
        FIFOCache_size_def split: prod.splits)
  have l: "k \<in> set (storedKeys c) \<Longrightarrow> k \<notin> set (storedKeys (step c ev)) \<Longrightarrow>
      ev = CallDelete k \<or> ev = CallClear \<or> (\<exists>k' v t. ev = FetchSettled k' (Resolved v) t)"
    by (rule entry_leaves_only_by_write_or_removal)
  have z: "(\<exists>k'. ev = CallDelete k') \<or> ev = CallClear"
    if "AutoFetchFIFOCache_new cap ttl = Inr c0" "c = run c0 pre"
      "size_cache (step c ev) < size_cache c"
  proof -
    have "wellFormed c"
      using wellFormed_new [OF that(1)] that(2) by (simp add: wellFormed_run)
    then show ?thesis
      using that(3) by (rule size_shrinks_only_by_removal)
  qed
  have first: "snd (has c now k) = c \<and>
   snd (FIFOCache_get (fifoCache c) now k) = fifoCache c \<and>
   fifoCache (getOrFetch c now k) = fifoCache c \<and>
   (list_all isRead evs \<longrightarrow>
      fifoCache (run c evs) = fifoCache c \<and> size_cache (run c evs) = size_cache c) \<and>
   (lookup (fifoCache c) k = Some e \<and> insertedAt e + ttlMs (fifoCache c) \<le> now \<and> list_all isRead evs \<longrightarrow>
      \<not> fst (has (run c evs) now k) \<and> fst (FIFOCache_get (fifoCache (run c evs)) now k) = None \<and>
      k \<in> set (storedKeys (run c evs)) \<and> 0 < size_cache (run c evs))"
    using r e [of "run c evs"]
    by (simp add: has_state FIFOCache_get_store getOrFetch_fifoCache size_cache_def)
  show ?thesis
    using first l z by blast
qed

theorem reads_remove_nothing_witness:
  "list_all isRead [CallHas ''k'' 1000, CallGetOrFetch ''k'' 1500, CallHas ''k'' 2000] \<and>
   lookup (fifoCache staleCache) ''k'' = Some \<lparr>entryKey = ''k'', entryValue = JNum 5, insertedAt = 0\<rparr> \<and>
   \<not> fst (has (run staleCache [CallHas ''k'' 1000, CallGetOrFetch ''k'' 1500, CallHas ''k'' 2000]) 2000 ''k'') \<and>
   size_cache (run staleCache [CallHas ''k'' 1000, CallGetOrFetch ''k'' 1500, CallHas ''k'' 2000]) = 1 \<and>
   AutoFetchFIFOCache_new 2 1000 = Inr exampleCache \<and>
   staleCache = run exampleCache [CallGetOrFetch ''k'' 0, FetchSettled ''k'' (Resolved (JNum 5)) 0] \<and>
   ''k'' \<in> set (storedKeys staleCache) \<and>
   ''k'' \<notin> set (storedKeys (step staleCache (CallDelete ''k''))) \<and>
   size_cache (step staleCache (CallDelete ''k'')) < size_cache staleCache"
  using reads_remove_nothing [of staleCache 2000 "''k''"
      "[CallHas ''k'' 1000, CallGetOrFetch ''k'' 1500, CallHas ''k'' 2000]"
      "\<lparr>entryKey = ''k'', entryValue = JNum 5, insertedAt = 0\<rparr>" "CallDelete ''k''" 2 1000
      exampleCache "[CallGetOrFetch ''k'' 0, FetchSettled ''k'' (Resolved (JNum 5)) 0]"]
    exampleCache_new
  by (simp add: staleCache_fifoCache lookup_def size_cache_def FIFOCache_size_def storedKeys_def
      delete_def FIFOCache_delete_def)
    (simp add: staleCache_def)

text \<open>
  Claim C10. \<^verbatim>\<open>delete(k)\<close> returns true exactly when the store holds an entry for \<open>k\<close>,
  fresh or expired. On an absent key it returns false and the state is unchanged. On a
  key that is stored and that \<^verbatim>\<open>has\<close> reports absent (an expired entry) it returns true,
  and the entry is gone afterwards.
\<close>

theorem delete_reports_raw_presence:
  "(fst (delete c k) \<longleftrightarrow> k \<in> set (storedKeys c)) \<and>
   (k \<notin> set (storedKeys c) \<longrightarrow> delete c k = (False, c)) \<and>
   (k \<in> set (storedKeys c) \<and> \<not> fst (has c now k) \<longrightarrow>
      fst (delete c k) \<and> k \<notin> set (storedKeys (snd (delete c k))))"
proof -
  have a: "fst (delete c k) \<longleftrightarrow> k \<in> set (storedKeys c)"
    using lookup_None_iff [of "fifoCache c" k]
    by (auto simp add: delete_def FIFOCache_delete_def storedKeys_def split: option.splits)
  have b: "k \<notin> set (storedKeys c) \<Longrightarrow> delete c k = (False, c)"
    using lookup_None_iff [of "fifoCache c" k]
    by (simp add: delete_def FIFOCache_delete_def storedKeys_def split: option.splits)
  have c: "k \<notin> set (storedKeys (snd (delete c k)))"
    by (auto simp add: delete_def FIFOCache_delete_def storedKeys_def lookup_def
        find_None_iff_keys split: option.splits)
  from a b c show ?thesis by blast
qed

theorem delete_reports_raw_presence_witness:
  "''a'' \<notin> set (storedKeys staleCache) \<and> delete staleCache ''a'' = (False, staleCache) \<and>
   ''k'' \<in> set (storedKeys staleCache) \<and> \<not> fst (has staleCache 1000 ''k'') \<and>
   fst (delete staleCache ''k'') \<and> ''k'' \<notin> set (storedKeys (snd (delete staleCache ''k'')))"
  using delete_reports_raw_presence [of staleCache "''a''" 0]
    delete_reports_raw_presence [of staleCache "''k''" 1000]
  by (simp add: storedKeys_def staleCache_fifoCache has_def FIFOCache_has_def lookup_def)

end
